theory Spec2Isabelle
  imports Main "HOL-Library.AList"
begin

section \<open>Data model\<close>

text \<open>
  The store with cache (both variants of \<^verbatim>\<open>StoreWithCache\<close>) works on JavaScript
  objects that are shared by reference: the cache, the write buffers and the caller can
  hold the same object. Objects therefore live in a heap; an entity is an address.
  An object carries its constructor name, its \<^verbatim>\<open>id\<close>, its scalar columns and its
  relation properties. \<open>RNull\<close> stands for both \<^verbatim>\<open>null\<close> and \<^verbatim>\<open>undefined\<close> (the code
  only ever tests \<^verbatim>\<open>== null\<close>); a relation property is \<^verbatim>\<open>in\<close> the object when
  \<open>rels\<close> has an entry for it.
\<close>

type_synonym addr = nat

datatype relval = RNull | RRef addr | RArr "addr list"

record obj =
  ctor :: string
  oid :: string
  cols :: "string \<rightharpoonup> string"
  rels :: "(string \<times> relval) list"

text \<open>\<^verbatim>\<open>FindOptionsRelations\<close>: a nested object of flags.\<close>

datatype relations = Flag bool | Nested "(string \<times> relations) list"

datatype whereclause = IdIn "string list" | Where string

record findOptions =
  whereOpt :: "whereclause option"
  relationsOpt :: "relations option"

datatype idOrOptions = Id string | Options findOptions

text \<open>
  The calls that reach the underlying \<^verbatim>\<open>Store\<close>, in the order they are issued. The name
  in \<open>StoreInsert\<close> and \<open>StoreUpsert\<close> is the buffer that the call drains (the store
  itself takes the class from the entities).
\<close>

datatype call =
    StoreInsert string "addr list"
  | StoreUpsert string "addr list"
  | StoreFind string findOptions
  | StoreFindBy string whereclause
  | StoreFindOne string findOptions
  | StoreFindOneBy string whereclause
  | StoreCount string "findOptions option"
  | StoreCountBy string whereclause
  | StoreGet string idOrOptions

datatype response = Done | Rows "addr list" | Row "addr option" | Count nat | Failed

datatype error = AssertionError string | TypeError | StoreFailure | StackOverflow

text \<open>The part of TypeORM's entity metadata that the code reads.\<close>

record relationMetadata =
  relationPropertyName :: string
  isOneToMany :: bool

record column =
  propertyName :: string
  relationMetadata :: "relationMetadata option"

record entityMetadata =
  mdName :: string
  foreignKeys :: "string list"
  columns :: "column list"
  mdRelations :: "string list"

text \<open>The graph of \<^verbatim>\<open>graph-data-structure\<close>: nodes and directed edges.\<close>

record graph =
  nodes :: "string list"
  edges :: "(string \<times> string) list"

text \<open>
  What surrounds the class: the schema registry (\<^verbatim>\<open>em.connection.entityMetadatas\<close>), the
  library's \<^verbatim>\<open>topologicalSort\<close>, the underlying store (its answer to a call may depend on
  all calls made before) and the depth of recursion the runtime allows.
\<close>

record env =
  entityMetadatas :: "entityMetadata list"
  topologicalSort :: "graph \<Rightarrow> string list"
  store :: "call list \<Rightarrow> call \<Rightarrow> response"
  stackLimit :: nat

record deferData =
  ids :: "string list"
  relations :: relations

text \<open>
  The fields of \<^verbatim>\<open>StoreWithCache\<close>. A JavaScript \<^verbatim>\<open>Map\<close> that is iterated is an
  association list in insertion order (the inner maps of \<^verbatim>\<open>insertMap\<close> and
  \<^verbatim>\<open>upsertMap\<close>, and \<^verbatim>\<open>deferList\<close> of the second variant); a \<^verbatim>\<open>Set\<close> is a list without
  duplicates in insertion order. The outer maps are only read through
  \<^verbatim>\<open>getInsertList\<close>, \<^verbatim>\<open>getUpsertList\<close>, \<^verbatim>\<open>getCacheMap\<close> and \<^verbatim>\<open>getDeferData\<close>, which
  create an empty entry for a missing name, so they are total functions here. In an
  inner cache map \<open>None\<close> is a missing key, \<open>Some None\<close> the \<^verbatim>\<open>null\<close> marker.
  The first variant keeps its deferred ids in \<open>deferMap\<close>, the second in \<open>deferList\<close>
  (and calls its buffers \<^verbatim>\<open>insertList\<close> and \<^verbatim>\<open>upsertList\<close>).
\<close>

record state =
  heap :: "addr \<Rightarrow> obj"
  nextAddr :: addr
  deferMap :: "string \<Rightarrow> deferData"
  deferList :: "(string \<times> string list) list"
  cacheMap :: "string \<Rightarrow> string \<rightharpoonup> addr option"
  classes :: "string list"
  insertMap :: "string \<Rightarrow> (string \<times> addr) list"
  upsertMap :: "string \<Rightarrow> (string \<times> addr) list"
  calls :: "call list"

text \<open>
  A method of the class is an action on the state: it returns a value or throws, and
  leaves the state it reached either way.
\<close>

type_synonym 'a action = "state \<Rightarrow> (error + 'a) \<times> state"

definition andThen :: "'a action \<Rightarrow> ('a \<Rightarrow> 'b action) \<Rightarrow> 'b action" where
  "andThen m f s = (case m s of (Inl e, s') \<Rightarrow> (Inl e, s') | (Inr x, s') \<Rightarrow> f x s')"

definition ok :: "'a \<Rightarrow> 'a action" where
  "ok x s = (Inr x, s)"

definition throw :: "error \<Rightarrow> 'a action" where
  "throw e s = (Inl e, s)"

definition gets :: "(state \<Rightarrow> 'a) \<Rightarrow> 'a action" where
  "gets f s = (Inr (f s), s)"

definition modify :: "(state \<Rightarrow> state) \<Rightarrow> unit action" where
  "modify f s = (Inr (), f s)"

definition assert :: "bool \<Rightarrow> string \<Rightarrow> unit action" where
  "assert b msg = (if b then ok () else throw (AssertionError msg))"

primrec forEach :: "('a \<Rightarrow> unit action) \<Rightarrow> 'a list \<Rightarrow> unit action" where
  "forEach f [] = ok ()"
| "forEach f (x # xs) = andThen (f x) (\<lambda>_. forEach f xs)"

primrec mapM :: "('a \<Rightarrow> 'b action) \<Rightarrow> 'a list \<Rightarrow> 'b list action" where
  "mapM f [] = ok []"
| "mapM f (x # xs) = andThen (f x) (\<lambda>y. andThen (mapM f xs) (\<lambda>ys. ok (y # ys)))"

definition has :: "('k \<times> 'v) list \<Rightarrow> 'k \<Rightarrow> bool" where
  "has m k = (map_of m k \<noteq> None)"

text \<open>A call to the underlying store is recorded, also when the store fails.\<close>

definition storeCall :: "env \<Rightarrow> call \<Rightarrow> response action" where
  "storeCall e c s =
     (case store e (calls s) c of
        Failed \<Rightarrow> (Inl StoreFailure, s\<lparr>calls := calls s @ [c]\<rparr>)
      | r \<Rightarrow> (Inr r, s\<lparr>calls := calls s @ [c]\<rparr>))"

definition rows :: "response \<Rightarrow> addr list action" where
  "rows r = (case r of Rows xs \<Rightarrow> ok xs | _ \<Rightarrow> throw StoreFailure)"

definition row :: "response \<Rightarrow> addr option action" where
  "row r = (case r of Row x \<Rightarrow> ok x | _ \<Rightarrow> throw StoreFailure)"

definition counted :: "response \<Rightarrow> nat action" where
  "counted r = (case r of Count n \<Rightarrow> ok n | _ \<Rightarrow> throw StoreFailure)"

definition alloc :: "obj \<Rightarrow> addr action" where
  "alloc ob s = (Inr (nextAddr s), s\<lparr>heap := (heap s)(nextAddr s := ob), nextAddr := Suc (nextAddr s)\<rparr>)"

definition setAdd :: "'a list \<Rightarrow> 'a \<Rightarrow> 'a list" where
  "setAdd xs x = (if x \<in> set xs then xs else xs @ [x])"

definition setCache :: "string \<Rightarrow> string \<Rightarrow> addr option \<Rightarrow> state \<Rightarrow> state" where
  "setCache name k v s = s\<lparr>cacheMap := (cacheMap s)(name := (cacheMap s name)(k \<mapsto> v))\<rparr>"

definition setInsert :: "string \<Rightarrow> string \<Rightarrow> addr \<Rightarrow> state \<Rightarrow> state" where
  "setInsert name k a s = s\<lparr>insertMap := (insertMap s)(name := AList.update k a (insertMap s name))\<rparr>"

definition setUpsert :: "string \<Rightarrow> string \<Rightarrow> addr \<Rightarrow> state \<Rightarrow> state" where
  "setUpsert name k a s = s\<lparr>upsertMap := (upsertMap s)(name := AList.update k a (upsertMap s name))\<rparr>"

text \<open>\<^verbatim>\<open>if (_cacheMap.has(id)) continue; _cacheMap.set(id, null)\<close>\<close>

definition markAbsent :: "string \<Rightarrow> string \<Rightarrow> state \<Rightarrow> state" where
  "markAbsent name k s = (if cacheMap s name k \<noteq> None then s else setCache name k None s)"

definition isNull :: "addr option option \<Rightarrow> bool" where
  "isNull c = (case c of Some (Some _) \<Rightarrow> False | _ \<Rightarrow> True)"

definition entitiesOf :: "relval \<Rightarrow> addr list" where
  "entitiesOf v = (case v of RRef a \<Rightarrow> [a] | RArr as \<Rightarrow> as | RNull \<Rightarrow> [])"

section \<open>The write order\<close>

definition addNode :: "graph \<Rightarrow> string \<Rightarrow> graph" where
  "addNode g n = (if n \<in> set (nodes g) then g else g\<lparr>nodes := nodes g @ [n]\<rparr>)"

definition addEdge :: "graph \<Rightarrow> string \<Rightarrow> string \<Rightarrow> graph" where
  "addEdge g u v = (let g' = addNode (addNode g u) v in g'\<lparr>edges := edges g' @ [(u, v)]\<rparr>)"

definition buildGraph :: "entityMetadata list \<Rightarrow> graph" where
  "buildGraph mds =
     fold (\<lambda>metadata g.
             fold (\<lambda>foreignKey g'. addEdge g' (mdName metadata) foreignKey)
               (foreignKeys metadata) (addNode g (mdName metadata)))
       mds \<lparr>nodes = [], edges = []\<rparr>"

definition getTopologicalOrder :: "env \<Rightarrow> string list" where
  "getTopologicalOrder e = rev (topologicalSort e (buildGraph (entityMetadatas e)))"

section \<open>Flush\<close>

definition flushInserts :: "env \<Rightarrow> string \<Rightarrow> unit action" where
  "flushInserts e name =
     andThen (gets (\<lambda>s. insertMap s name)) (\<lambda>insertList.
     andThen (if insertList \<noteq> []
              then andThen (storeCall e (StoreInsert name (map snd insertList))) (\<lambda>_. ok ())
              else ok ()) (\<lambda>_.
     modify (\<lambda>s. s\<lparr>insertMap := (insertMap s)(name := [])\<rparr>)))"

definition flushUpserts :: "env \<Rightarrow> string \<Rightarrow> unit action" where
  "flushUpserts e name =
     andThen (gets (\<lambda>s. upsertMap s name)) (\<lambda>upsertList.
     andThen (if upsertList \<noteq> []
              then andThen (storeCall e (StoreUpsert name (map snd upsertList))) (\<lambda>_. ok ())
              else ok ()) (\<lambda>_.
     modify (\<lambda>s. s\<lparr>upsertMap := (upsertMap s)(name := [])\<rparr>)))"

definition flushName :: "env \<Rightarrow> string \<Rightarrow> unit action" where
  "flushName e name = andThen (flushInserts e name) (\<lambda>_. flushUpserts e name)"

fun flushLoop :: "env \<Rightarrow> string option \<Rightarrow> string list \<Rightarrow> unit action" where
  "flushLoop e entityClass [] = ok ()"
| "flushLoop e entityClass (name # rest) =
     andThen (flushName e name) (\<lambda>_.
       if entityClass = Some name then ok () else flushLoop e entityClass rest)"

definition flush_v1 :: "env \<Rightarrow> string option \<Rightarrow> unit action" where
  "flush_v1 e entityClass = flushLoop e entityClass (getTopologicalOrder e)"

text \<open>
  The second variant's \<^verbatim>\<open>flush\<close> has the same loop; its class argument is required,
  and its \<^verbatim>\<open>getCacheMap(name)\<close> only creates an empty inner map.
\<close>

definition flush_v2 :: "env \<Rightarrow> string \<Rightarrow> unit action" where
  "flush_v2 e entityClass = flushLoop e (Some entityClass) (getTopologicalOrder e)"

section \<open>Relation paths\<close>

definition entries :: "relations \<Rightarrow> (string \<times> relations) list" where
  "entries r = (case r of Nested xs \<Rightarrow> xs | Flag _ \<Rightarrow> [])"

text \<open>
  \<^verbatim>\<open>mergeRelataions\<close>: the first argument is the object built so far (it starts as the
  copy of \<^verbatim>\<open>a\<close>), the second the keys of \<^verbatim>\<open>b\<close> still to visit.
\<close>

fun mergeEntries :: "(string \<times> relations) list \<Rightarrow> (string \<times> relations) list \<Rightarrow> (string \<times> relations) list" where
  "mergeEntries mergedObject [] = mergedObject"
| "mergeEntries mergedObject ((key, Nested bs) # b) =
     mergeEntries
       (AList.update key
          (case map_of mergedObject key of
             Some (Nested vs) \<Rightarrow> Nested (mergeEntries vs bs)
           | _ \<Rightarrow> Nested bs)
          mergedObject) b"
| "mergeEntries mergedObject ((key, Flag f) # b) =
     mergeEntries
       (AList.update key
          (case map_of mergedObject key of
             None \<Rightarrow> Flag f
           | Some (Flag False) \<Rightarrow> Flag f
           | Some v \<Rightarrow> v)
          mergedObject) b"

definition mergeRelataions :: "relations \<Rightarrow> relations \<Rightarrow> relations" where
  "mergeRelataions a b = Nested (mergeEntries (entries a) (entries b))"

text \<open>
  \<^verbatim>\<open>options.relations = options.relations != null
     ? mergeRelataions(options.relations, _deferData.relations) : _deferData.relations\<close>
\<close>

definition withDeferredRelations :: "findOptions \<Rightarrow> deferData \<Rightarrow> findOptions" where
  "withDeferredRelations options deferData =
     options\<lparr>relationsOpt := Some (case relationsOpt options of
                 Some r \<Rightarrow> mergeRelataions r (relations deferData)
               | None \<Rightarrow> relations deferData)\<rparr>"

definition noOptions :: findOptions where
  "noOptions = \<lparr>whereOpt = None, relationsOpt = None\<rparr>"

section \<open>First variant\<close>

subsection \<open>cache\<close>

text \<open>
  \<^verbatim>\<open>cache\<close> calls itself on the relation objects of an entity; \<open>rec\<close> is that inner call.
  The primary column \<^verbatim>\<open>id\<close> is kept apart in \<open>oid\<close>: every entity class has it, so the
  loop over the columns copies \<^verbatim>\<open>entity.id\<close> into \<^verbatim>\<open>cached\<close>, which was found under that
  id or is created for it. Hence \<^verbatim>\<open>cached.id\<close> is \<^verbatim>\<open>entity.id\<close>, and a new object is
  allocated with it.
\<close>

definition setRelation :: "addr \<Rightarrow> string \<Rightarrow> relval \<Rightarrow> unit action" where
  "setRelation cached p v =
     modify (\<lambda>s. s\<lparr>heap := (heap s)(cached := (heap s cached)
                       \<lparr>rels := AList.update p v (rels (heap s cached))\<rparr>)\<rparr>)"

definition copyColumn :: "addr \<Rightarrow> addr \<Rightarrow> string \<Rightarrow> unit action" where
  "copyColumn entity cached p =
     modify (\<lambda>s. s\<lparr>heap := (heap s)(cached := (heap s cached)
                       \<lparr>cols := (cols (heap s cached))(p := cols (heap s entity) p)\<rparr>)\<rparr>)"

definition cacheColumn :: "(relval \<Rightarrow> relval action) \<Rightarrow> addr \<Rightarrow> addr \<Rightarrow> column \<Rightarrow> unit action" where
  "cacheColumn rec entity cached col =
     (case relationMetadata col of
        Some rm \<Rightarrow>
          andThen (gets (\<lambda>s. map_of (rels (heap s entity)) (relationPropertyName rm))) (\<lambda>present.
          andThen (case present of
                     None \<Rightarrow> ok ()
                   | Some v \<Rightarrow>
                       andThen (assert (\<not> isOneToMany rm) ''OneToMany relations can't be cached'') (\<lambda>_.
                         if v = RNull then setRelation cached (relationPropertyName rm) RNull
                         else andThen (rec v) (setRelation cached (relationPropertyName rm)))) (\<lambda>_.
          if propertyName col \<noteq> relationPropertyName rm
          then copyColumn entity cached (propertyName col) else ok ()))
      | None \<Rightarrow> copyColumn entity cached (propertyName col))"

definition cacheEntity :: "(relval \<Rightarrow> relval action) \<Rightarrow> env \<Rightarrow> string \<Rightarrow> addr \<Rightarrow> addr action" where
  "cacheEntity rec e mapName entity =
     andThen (gets (\<lambda>s. heap s entity)) (\<lambda>ent.
     andThen (gets (\<lambda>s. cacheMap s mapName (oid ent))) (\<lambda>found.
     andThen (case found of
                Some (Some c) \<Rightarrow> ok c
              | _ \<Rightarrow> alloc \<lparr>ctor = ctor ent, oid = oid ent, cols = Map.empty, rels = []\<rparr>) (\<lambda>cached.
       case find (\<lambda>m. mdName m = ctor ent) (entityMetadatas e) of
         None \<Rightarrow> throw (AssertionError (''Missing metadata for '' @ ctor ent))
       | Some metadata \<Rightarrow>
           andThen (forEach (cacheColumn rec entity cached) (columns metadata)) (\<lambda>_.
           andThen (modify (setCache mapName (oid ent) (Some cached))) (\<lambda>_.
           ok cached)))))"

definition cacheStep :: "(relval \<Rightarrow> relval action) \<Rightarrow> env \<Rightarrow> relval \<Rightarrow> relval action" where
  "cacheStep rec e v =
     (case v of
        RNull \<Rightarrow> throw TypeError
      | _ \<Rightarrow>
         (case entitiesOf v of
            [] \<Rightarrow> ok RNull
          | first # _ \<Rightarrow>
              andThen (gets (\<lambda>s. ctor (heap s first))) (\<lambda>mapName.
              andThen (mapM (cacheEntity rec e mapName) (entitiesOf v)) (\<lambda>caachedEntities.
              ok (case v of RArr _ \<Rightarrow> RArr caachedEntities | _ \<Rightarrow> RRef (hd caachedEntities))))))"

primrec cacheRec :: "nat \<Rightarrow> env \<Rightarrow> relval \<Rightarrow> relval action" where
  "cacheRec 0 e v = throw StackOverflow"
| "cacheRec (Suc n) e v = cacheStep (cacheRec n e) e v"

definition cache_v1 :: "env \<Rightarrow> relval \<Rightarrow> relval action" where
  "cache_v1 e v = cacheRec (stackLimit e) e v"

subsection \<open>insert and upsert\<close>

definition insertEntity_v1 :: "env \<Rightarrow> string \<Rightarrow> addr \<Rightarrow> unit action" where
  "insertEntity_v1 e entityName entity =
     andThen (gets (\<lambda>s. oid (heap s entity))) (\<lambda>k.
     andThen (gets (\<lambda>s. has (insertMap s entityName) k)) (\<lambda>pendingInsert.
     andThen (assert (\<not> pendingInsert) []) (\<lambda>_.
     andThen (gets (\<lambda>s. has (upsertMap s entityName) k)) (\<lambda>pendingUpsert.
     andThen (assert (\<not> pendingUpsert) []) (\<lambda>_.
     andThen (gets (\<lambda>s. cacheMap s entityName k)) (\<lambda>cached.
     andThen (assert (isNull cached) []) (\<lambda>_.
     andThen (cache_v1 e (RRef entity)) (\<lambda>cached.
       case cached of RRef c \<Rightarrow> modify (setInsert entityName k c) | _ \<Rightarrow> ok ()))))))))"

definition insert_v1 :: "env \<Rightarrow> relval \<Rightarrow> unit action" where
  "insert_v1 e v =
     (case v of
        RNull \<Rightarrow> throw TypeError
      | _ \<Rightarrow>
         (case entitiesOf v of
            [] \<Rightarrow> ok ()
          | first # _ \<Rightarrow>
              andThen (gets (\<lambda>s. ctor (heap s first))) (\<lambda>entityName.
              forEach (insertEntity_v1 e entityName) (entitiesOf v))))"

definition upsertEntity_v1 :: "env \<Rightarrow> string \<Rightarrow> addr \<Rightarrow> unit action" where
  "upsertEntity_v1 e entityName entity =
     andThen (gets (\<lambda>s. oid (heap s entity))) (\<lambda>k.
     andThen (cache_v1 e (RRef entity)) (\<lambda>cached.
     andThen (gets (\<lambda>s. has (insertMap s entityName) k)) (\<lambda>pendingInsert.
       case cached of
         RRef c \<Rightarrow> if \<not> pendingInsert then modify (setUpsert entityName k c) else ok ()
       | _ \<Rightarrow> ok ())))"

definition upsert_v1 :: "env \<Rightarrow> relval \<Rightarrow> unit action" where
  "upsert_v1 e v =
     (case v of
        RNull \<Rightarrow> throw TypeError
      | _ \<Rightarrow>
         (case entitiesOf v of
            [] \<Rightarrow> ok ()
          | first # _ \<Rightarrow>
              andThen (gets (\<lambda>s. ctor (heap s first))) (\<lambda>entityName.
              forEach (upsertEntity_v1 e entityName) (entitiesOf v))))"

subsection \<open>defer, load and the read operations\<close>

definition emptyDeferData :: deferData where
  "emptyDeferData = \<lparr>ids = [], relations = Nested []\<rparr>"

definition defer_v1 :: "string \<Rightarrow> string \<Rightarrow> relations option \<Rightarrow> state \<Rightarrow> state" where
  "defer_v1 entityClass k rel s =
     (let deferredList = deferMap s entityClass
      in s\<lparr>classes := setAdd (classes s) entityClass,
            deferMap := (deferMap s)(entityClass :=
              \<lparr>ids = setAdd (ids deferredList) k,
               relations = (case rel of Some r \<Rightarrow> mergeRelataions (relations deferredList) r
                            | None \<Rightarrow> relations deferredList)\<rparr>)\<rparr>)"

definition find_v1 :: "env \<Rightarrow> string \<Rightarrow> findOptions option \<Rightarrow> addr list action" where
  "find_v1 e entityClass options =
     andThen (flush_v1 e (Some entityClass)) (\<lambda>_.
     andThen (gets (\<lambda>s. deferMap s entityClass)) (\<lambda>deferData.
     andThen (storeCall e (StoreFind entityClass
                (withDeferredRelations (case options of Some given \<Rightarrow> given | None \<Rightarrow> noOptions)
                   deferData))) (\<lambda>r.
     andThen (rows r) (\<lambda>res.
     andThen (cache_v1 e (RArr res)) (\<lambda>_.
     ok res)))))"

definition findBy_v1 :: "env \<Rightarrow> string \<Rightarrow> whereclause \<Rightarrow> addr list action" where
  "findBy_v1 e entityClass wher =
     andThen (flush_v1 e (Some entityClass)) (\<lambda>_.
     andThen (storeCall e (StoreFindBy entityClass wher)) (\<lambda>r.
     andThen (rows r) (\<lambda>res.
     andThen (cache_v1 e (RArr res)) (\<lambda>_.
     ok res))))"

definition findOne_v1 :: "env \<Rightarrow> string \<Rightarrow> findOptions \<Rightarrow> addr option action" where
  "findOne_v1 e entityClass options =
     andThen (flush_v1 e (Some entityClass)) (\<lambda>_.
     andThen (gets (\<lambda>s. deferMap s entityClass)) (\<lambda>deferData.
     andThen (storeCall e (StoreFindOne entityClass (withDeferredRelations options deferData))) (\<lambda>r.
     andThen (row r) (\<lambda>res.
       case res of
         Some a \<Rightarrow> andThen (cache_v1 e (RRef a)) (\<lambda>_. ok res)
       | None \<Rightarrow> ok res))))"

definition findOneBy_v1 :: "env \<Rightarrow> string \<Rightarrow> whereclause \<Rightarrow> addr option action" where
  "findOneBy_v1 e entityClass wher =
     andThen (flush_v1 e (Some entityClass)) (\<lambda>_.
     andThen (storeCall e (StoreFindOneBy entityClass wher)) (\<lambda>r.
     andThen (row r) (\<lambda>res.
       case res of
         Some a \<Rightarrow> andThen (cache_v1 e (RRef a)) (\<lambda>_. ok res)
       | None \<Rightarrow> ok res)))"

definition count_v1 :: "env \<Rightarrow> string \<Rightarrow> findOptions option \<Rightarrow> nat action" where
  "count_v1 e entityClass options =
     andThen (flush_v1 e (Some entityClass)) (\<lambda>_.
     andThen (storeCall e (StoreCount entityClass options)) counted)"

definition countBy_v1 :: "env \<Rightarrow> string \<Rightarrow> whereclause \<Rightarrow> nat action" where
  "countBy_v1 e entityClass wher =
     andThen (flush_v1 e (Some entityClass)) (\<lambda>_.
     andThen (storeCall e (StoreCountBy entityClass wher)) counted)"

definition load_v1 :: "env \<Rightarrow> string \<Rightarrow> unit action" where
  "load_v1 e entityClass =
     andThen (gets (\<lambda>s. deferMap s entityClass)) (\<lambda>deferData.
       if ids deferData = [] then ok ()
       else
         andThen (forEach (\<lambda>k. modify (markAbsent entityClass k)) (ids deferData)) (\<lambda>_.
         andThen (find_v1 e entityClass
                    (Some \<lparr>whereOpt = Some (IdIn (ids deferData)),
                           relationsOpt = Some (relations deferData)\<rparr>)) (\<lambda>_.
         modify (\<lambda>s. s\<lparr>deferMap := (deferMap s)(entityClass := emptyDeferData)\<rparr>))))"

text \<open>
  The deep copy of \<^verbatim>\<open>copy\<close> (copy-anything) and of \<^verbatim>\<open>structuredClone\<close>: a new object
  for the entity and for every object its relations reach. Both are outside the
  repository; the copy is taken to keep the constructor name and to follow the
  relations as a tree.
\<close>

definition copyStep :: "(addr \<Rightarrow> addr action) \<Rightarrow> addr \<Rightarrow> addr action" where
  "copyStep rec a =
     andThen (gets (\<lambda>s. heap s a)) (\<lambda>ob.
     andThen (mapM (\<lambda>(p, v). case v of
                       RNull \<Rightarrow> ok (p, RNull)
                     | RRef b \<Rightarrow> andThen (rec b) (\<lambda>b'. ok (p, RRef b'))
                     | RArr bs \<Rightarrow> andThen (mapM rec bs) (\<lambda>bs'. ok (p, RArr bs')))
                (rels ob)) (\<lambda>rs.
     alloc (ob\<lparr>rels := rs\<rparr>)))"

primrec copyRec :: "nat \<Rightarrow> addr \<Rightarrow> addr action" where
  "copyRec 0 a = throw StackOverflow"
| "copyRec (Suc n) a = copyStep (copyRec n) a"

definition copy :: "env \<Rightarrow> addr \<Rightarrow> addr action" where
  "copy e a = copyRec (stackLimit e) a"

text \<open>\<^verbatim>\<open>this.store.get(entityClass, optionsOrId).then((v) => v && this.cache(v))\<close> after a flush.\<close>

definition getFromStore_v1 :: "env \<Rightarrow> string \<Rightarrow> idOrOptions \<Rightarrow> addr option action" where
  "getFromStore_v1 e entityClass optionsOrId =
     andThen (flush_v1 e (Some entityClass)) (\<lambda>_.
     andThen (storeCall e (StoreGet entityClass optionsOrId)) (\<lambda>r.
     andThen (row r) (\<lambda>v.
       case v of
         Some a \<Rightarrow> andThen (cache_v1 e (RRef a))
                     (\<lambda>cached. ok (case cached of RRef c \<Rightarrow> Some c | _ \<Rightarrow> None))
       | None \<Rightarrow> ok None)))"

definition get_v1 :: "env \<Rightarrow> string \<Rightarrow> idOrOptions \<Rightarrow> addr option action" where
  "get_v1 e entityClass optionsOrId =
     (case optionsOrId of
        Id k \<Rightarrow>
          andThen (load_v1 e entityClass) (\<lambda>_.
          andThen (gets (\<lambda>s. cacheMap s entityClass k)) (\<lambda>entity.
            case entity of
              Some None \<Rightarrow> ok None
            | Some (Some a) \<Rightarrow> andThen (copy e a) (\<lambda>c. ok (Some c))
            | None \<Rightarrow> getFromStore_v1 e entityClass optionsOrId))
      | Options _ \<Rightarrow> getFromStore_v1 e entityClass optionsOrId)"

text \<open>\<^verbatim>\<open>DeferredValue.get\<close>: the handle of \<^verbatim>\<open>defer\<close> resolves through \<^verbatim>\<open>get\<close>.\<close>

definition resolve_v1 :: "env \<Rightarrow> string \<Rightarrow> string \<Rightarrow> addr option action" where
  "resolve_v1 e entityClass k = get_v1 e entityClass (Id k)"

section \<open>Second variant\<close>

text \<open>
  \<^verbatim>\<open>getDeferList(name)\<close> appends an empty set for a missing name; \<open>deferIds\<close> reads the
  set and \<open>setDeferIds\<close> writes it, appending the entry when the name is new.
\<close>

definition deferIds :: "state \<Rightarrow> string \<Rightarrow> string list" where
  "deferIds s name = (case map_of (deferList s) name of Some l \<Rightarrow> l | None \<Rightarrow> [])"

definition setDeferIds :: "string \<Rightarrow> string list \<Rightarrow> state \<Rightarrow> state" where
  "setDeferIds name l s = s\<lparr>deferList := AList.update name l (deferList s)\<rparr>"

definition deferDelete :: "string \<Rightarrow> string \<Rightarrow> state \<Rightarrow> state" where
  "deferDelete name k s = setDeferIds name (removeAll k (deferIds s name)) s"

subsection \<open>cache\<close>

definition cacheEntity_v2 :: "(relval \<Rightarrow> relval action) \<Rightarrow> env \<Rightarrow> string \<Rightarrow> addr \<Rightarrow> unit action" where
  "cacheEntity_v2 rec e mapName entity =
     andThen (gets (\<lambda>s. heap s entity)) (\<lambda>ent.
     andThen (modify (deferDelete mapName (oid ent))) (\<lambda>_.
     andThen (modify (setCache mapName (oid ent) (Some entity))) (\<lambda>_.
       case find (\<lambda>m. mdName m = ctor ent) (entityMetadatas e) of
         None \<Rightarrow> throw (AssertionError [])
       | Some metadata \<Rightarrow>
           forEach (\<lambda>relation.
                      andThen (gets (\<lambda>s. map_of (rels (heap s entity)) relation)) (\<lambda>present.
                        case present of
                          None \<Rightarrow> ok ()
                        | Some RNull \<Rightarrow> ok ()
                        | Some v \<Rightarrow> andThen (rec v) (\<lambda>_. ok ())))
             (mdRelations metadata))))"

definition cacheStep_v2 :: "(relval \<Rightarrow> relval action) \<Rightarrow> env \<Rightarrow> relval \<Rightarrow> relval action" where
  "cacheStep_v2 rec e v =
     (case v of
        RNull \<Rightarrow> throw TypeError
      | _ \<Rightarrow>
         (case entitiesOf v of
            [] \<Rightarrow> ok RNull
          | first # _ \<Rightarrow>
              andThen (gets (\<lambda>s. ctor (heap s first))) (\<lambda>mapName.
              andThen (forEach (cacheEntity_v2 rec e mapName) (entitiesOf v)) (\<lambda>_.
              ok v))))"

primrec cacheRec_v2 :: "nat \<Rightarrow> env \<Rightarrow> relval \<Rightarrow> relval action" where
  "cacheRec_v2 0 e v = throw StackOverflow"
| "cacheRec_v2 (Suc n) e v = cacheStep_v2 (cacheRec_v2 n e) e v"

definition cache_v2 :: "env \<Rightarrow> relval \<Rightarrow> relval action" where
  "cache_v2 e v = cacheRec_v2 (stackLimit e) e v"

subsection \<open>insert and upsert\<close>

definition insertEntity_v2 :: "string \<Rightarrow> addr \<Rightarrow> unit action" where
  "insertEntity_v2 entityName entity =
     andThen (gets (\<lambda>s. oid (heap s entity))) (\<lambda>k.
     andThen (modify (deferDelete entityName k)) (\<lambda>_.
     andThen (gets (\<lambda>s. has (insertMap s entityName) k)) (\<lambda>pendingInsert.
     andThen (assert (\<not> pendingInsert) []) (\<lambda>_.
     andThen (gets (\<lambda>s. has (upsertMap s entityName) k)) (\<lambda>pendingUpsert.
     andThen (assert (\<not> pendingUpsert) []) (\<lambda>_.
     andThen (gets (\<lambda>s. cacheMap s entityName k)) (\<lambda>cached.
     andThen (assert (isNull cached) []) (\<lambda>_.
     andThen (modify (setInsert entityName k entity)) (\<lambda>_.
     modify (setCache entityName k (Some entity)))))))))))"

definition insert_v2 :: "relval \<Rightarrow> unit action" where
  "insert_v2 v =
     (case v of
        RNull \<Rightarrow> throw TypeError
      | _ \<Rightarrow>
         (case entitiesOf v of
            [] \<Rightarrow> ok ()
          | first # _ \<Rightarrow>
              andThen (gets (\<lambda>s. ctor (heap s first))) (\<lambda>entityName.
              forEach (insertEntity_v2 entityName) (entitiesOf v))))"

definition upsertEntity_v2 :: "string \<Rightarrow> addr \<Rightarrow> unit action" where
  "upsertEntity_v2 entityName entity =
     andThen (gets (\<lambda>s. oid (heap s entity))) (\<lambda>k.
     andThen (modify (deferDelete entityName k)) (\<lambda>_.
     andThen (gets (\<lambda>s. has (insertMap s entityName) k)) (\<lambda>pendingInsert.
     andThen (if \<not> pendingInsert then modify (setUpsert entityName k entity) else ok ()) (\<lambda>_.
     modify (setCache entityName k (Some entity))))))"

definition upsert_v2 :: "relval \<Rightarrow> unit action" where
  "upsert_v2 v =
     (case v of
        RNull \<Rightarrow> throw TypeError
      | _ \<Rightarrow>
         (case entitiesOf v of
            [] \<Rightarrow> ok ()
          | first # _ \<Rightarrow>
              andThen (gets (\<lambda>s. ctor (heap s first))) (\<lambda>entityName.
              forEach (upsertEntity_v2 entityName) (entitiesOf v))))"

subsection \<open>defer, load and the read operations\<close>

definition defer_v2 :: "string \<Rightarrow> string \<Rightarrow> state \<Rightarrow> state" where
  "defer_v2 entityClass k s =
     (let s1 = s\<lparr>classes := setAdd (classes s) entityClass\<rparr>;
          deferredList = deferIds s1 entityClass
      in setDeferIds entityClass
           (if cacheMap s1 entityClass k = None then setAdd deferredList k else deferredList) s1)"

definition find_v2 :: "env \<Rightarrow> string \<Rightarrow> findOptions option \<Rightarrow> relval action" where
  "find_v2 e entityClass options =
     andThen (flush_v2 e entityClass) (\<lambda>_.
     andThen (storeCall e (StoreFind entityClass
                (case options of Some given \<Rightarrow> given | None \<Rightarrow> noOptions))) (\<lambda>r.
     andThen (rows r) (\<lambda>v.
     cache_v2 e (RArr v))))"

text \<open>
  \<^verbatim>\<open>load\<close> walks the names of \<^verbatim>\<open>deferList\<close>. Names that \<^verbatim>\<open>cache\<close> adds during the walk
  get an empty set (\<^verbatim>\<open>cache\<close> only deletes ids), and an empty set is skipped, so the
  walk over the names present at the start visits the same sets.
\<close>

definition loadName_v2 :: "env \<Rightarrow> string \<Rightarrow> unit action" where
  "loadName_v2 e name =
     andThen (gets (\<lambda>s. deferIds s name)) (\<lambda>deferred.
       if deferred = [] then ok ()
       else
         andThen (gets (\<lambda>s. name \<in> set (classes s))) (\<lambda>known.
         andThen (assert known []) (\<lambda>_.
         andThen (find_v2 e name (Some \<lparr>whereOpt = Some (IdIn deferred), relationsOpt = None\<rparr>)) (\<lambda>_.
         andThen (gets (\<lambda>s. deferIds s name)) (\<lambda>remaining.
         andThen (forEach (\<lambda>k. modify (markAbsent name k)) remaining) (\<lambda>_.
         modify (setDeferIds name [])))))))"

definition load_v2 :: "env \<Rightarrow> unit action" where
  "load_v2 e = andThen (gets (\<lambda>s. map fst (deferList s))) (forEach (loadName_v2 e))"

definition getFromStore_v2 :: "env \<Rightarrow> string \<Rightarrow> idOrOptions \<Rightarrow> addr option action" where
  "getFromStore_v2 e entityClass optionsOrId =
     andThen (flush_v2 e entityClass) (\<lambda>_.
     andThen (storeCall e (StoreGet entityClass optionsOrId)) (\<lambda>r.
     andThen (row r) (\<lambda>v.
       case v of
         Some a \<Rightarrow> andThen (cache_v2 e (RRef a))
                     (\<lambda>cached. ok (case cached of RRef c \<Rightarrow> Some c | _ \<Rightarrow> None))
       | None \<Rightarrow> ok None)))"

definition get_v2 :: "env \<Rightarrow> string \<Rightarrow> idOrOptions \<Rightarrow> addr option action" where
  "get_v2 e entityClass optionsOrId =
     (case optionsOrId of
        Id k \<Rightarrow>
          andThen (load_v2 e) (\<lambda>_.
          andThen (gets (\<lambda>s. cacheMap s entityClass k)) (\<lambda>entity.
            case entity of
              Some None \<Rightarrow> ok None
            | Some (Some a) \<Rightarrow> andThen (copy e a) (\<lambda>c. ok (Some c))
            | None \<Rightarrow> getFromStore_v2 e entityClass optionsOrId))
      | Options _ \<Rightarrow> getFromStore_v2 e entityClass optionsOrId)"

definition resolve_v2 :: "env \<Rightarrow> string \<Rightarrow> string \<Rightarrow> addr option action" where
  "resolve_v2 e entityClass k = get_v2 e entityClass (Id k)"

section \<open>The empty store\<close>

definition emptyObj :: obj where
  "emptyObj = \<lparr>ctor = [], oid = [], cols = Map.empty, rels = []\<rparr>"

definition initState :: state where
  "initState =
     \<lparr>heap = (\<lambda>_. emptyObj), nextAddr = 0, deferMap = (\<lambda>_. emptyDeferData), deferList = [],
      cacheMap = (\<lambda>_. Map.empty), classes = [], insertMap = (\<lambda>_. []), upsertMap = (\<lambda>_. []),
      calls = []\<rparr>"

section \<open>Notions used by the properties\<close>

text \<open>An action keeps a property of the state when every run from a state that has it ends in one
  that has it, whether the run returns or throws.\<close>

definition keeps :: "(state \<Rightarrow> bool) \<Rightarrow> 'a action \<Rightarrow> bool" where
  "keeps P m = (\<forall>s. P s \<longrightarrow> P (snd (m s)))"

text \<open>\<open>before x y xs\<close>: the first \<open>x\<close> of the list is followed by a \<open>y\<close>.\<close>

fun before :: "'a \<Rightarrow> 'a \<Rightarrow> 'a list \<Rightarrow> bool" where
  "before x y [] = False"
| "before x y (z # zs) = (if z = x then y \<in> set zs else before x y zs)"

definition isTopological :: "graph \<Rightarrow> string list \<Rightarrow> bool" where
  "isTopological g xs =
     (distinct xs \<and> set (nodes g) \<subseteq> set xs \<and> list_all (\<lambda>(u, v). before u v xs) (edges g))"

definition untouchedByFlush :: "state \<Rightarrow> state \<Rightarrow> bool" where
  "untouchedByFlush s s' =
     (heap s' = heap s \<and> nextAddr s' = nextAddr s \<and> cacheMap s' = cacheMap s \<and>
      deferMap s' = deferMap s \<and> deferList s' = deferList s \<and> classes s' = classes s)"

subsection \<open>An example schema: transfers between accounts\<close>

definition mdAccount :: entityMetadata where
  "mdAccount = \<lparr>mdName = ''Account'', foreignKeys = [],
     columns = [\<lparr>propertyName = ''balance'', relationMetadata = None\<rparr>], mdRelations = []\<rparr>"

definition mdTransfer :: entityMetadata where
  "mdTransfer = \<lparr>mdName = ''Transfer'', foreignKeys = [''Account'', ''Account''],
     columns = [\<lparr>propertyName = ''from'',
                 relationMetadata = Some \<lparr>relationPropertyName = ''from'', isOneToMany = False\<rparr>\<rparr>,
                \<lparr>propertyName = ''amount'', relationMetadata = None\<rparr>],
     mdRelations = [''from'']\<rparr>"

definition exampleEnv :: env where
  "exampleEnv =
     \<lparr>entityMetadatas = [mdAccount, mdTransfer],
      topologicalSort = (\<lambda>g. [''Transfer'', ''Account'']),
      store = (\<lambda>cs c. case c of StoreFind _ _ \<Rightarrow> Rows [] | StoreFindBy _ _ \<Rightarrow> Rows []
                 | StoreFindOne _ _ \<Rightarrow> Row None | StoreFindOneBy _ _ \<Rightarrow> Row None
                 | StoreGet _ _ \<Rightarrow> Row None | StoreCount _ _ \<Rightarrow> Count 0
                 | StoreCountBy _ _ \<Rightarrow> Count 0 | _ \<Rightarrow> Done),
      stackLimit = 5\<rparr>"

definition pendingBoth :: state where
  "pendingBoth = initState\<lparr>insertMap := (\<lambda>_. [])(''Transfer'' := [(''t1'', 2)], ''Account'' := [(''a'', 0), (''b'', 1)])\<rparr>"


subsection \<open>Runs of the first variant\<close>

text \<open>
  The operations a caller can issue, and the state after one of them, whether it returned
  or threw. \<open>AppWrite\<close> is the application creating or changing an object of its own.
\<close>

datatype operation =
    OpInsert relval
  | OpUpsert relval
  | OpDefer string string "relations option"
  | OpGet string idOrOptions
  | OpFind string "findOptions option"
  | OpFindBy string whereclause
  | OpFindOne string findOptions
  | OpFindOneBy string whereclause
  | OpCount string "findOptions option"
  | OpCountBy string whereclause
  | OpFlush "string option"
  | AppWrite addr obj

definition perform_v1 :: "env \<Rightarrow> operation \<Rightarrow> state \<Rightarrow> state" where
  "perform_v1 e opn s =
     (case opn of
        OpInsert v \<Rightarrow> snd (insert_v1 e v s)
      | OpUpsert v \<Rightarrow> snd (upsert_v1 e v s)
      | OpDefer c k r \<Rightarrow> defer_v1 c k r s
      | OpGet c k \<Rightarrow> snd (get_v1 e c k s)
      | OpFind c q \<Rightarrow> snd (find_v1 e c q s)
      | OpFindBy c w \<Rightarrow> snd (findBy_v1 e c w s)
      | OpFindOne c q \<Rightarrow> snd (findOne_v1 e c q s)
      | OpFindOneBy c w \<Rightarrow> snd (findOneBy_v1 e c w s)
      | OpCount c q \<Rightarrow> snd (count_v1 e c q s)
      | OpCountBy c w \<Rightarrow> snd (countBy_v1 e c w s)
      | OpFlush c \<Rightarrow> snd (flush_v1 e c s)
      | AppWrite a ob \<Rightarrow> s\<lparr>heap := (heap s)(a := ob)\<rparr>)"

definition buffersDisjoint :: "state \<Rightarrow> bool" where
  "buffersDisjoint s = (\<forall>name k. \<not> (has (insertMap s name) k \<and> has (upsertMap s name) k))"

text \<open>A property that only reads the two write buffers and survives the clearing of a buffer.\<close>

definition bufferProperty :: "(state \<Rightarrow> bool) \<Rightarrow> bool" where
  "bufferProperty P =
     ((\<forall>s t. insertMap t = insertMap s \<and> upsertMap t = upsertMap s \<longrightarrow> P s \<longrightarrow> P t) \<and>
      (\<forall>s n. P s \<longrightarrow> P (s\<lparr>insertMap := (insertMap s)(n := [])\<rparr>)) \<and>
      (\<forall>s n. P s \<longrightarrow> P (s\<lparr>upsertMap := (upsertMap s)(n := [])\<rparr>)))"


definition accountA :: obj where
  "accountA = \<lparr>ctor = ''Account'', oid = ''a'', cols = [''balance'' \<mapsto> ''5''], rels = []\<rparr>"

definition accountB :: obj where
  "accountB = \<lparr>ctor = ''Account'', oid = ''b'', cols = [''balance'' \<mapsto> ''7''], rels = []\<rparr>"

definition transferT :: obj where
  "transferT = \<lparr>ctor = ''Transfer'', oid = ''t1'', cols = [''amount'' \<mapsto> ''3''], rels = [(''from'', RRef 0)]\<rparr>"

text \<open>The application's objects: two accounts and a transfer from the first.\<close>

definition appHeap :: "addr \<Rightarrow> obj" where
  "appHeap = (\<lambda>_. emptyObj)(0 := accountA, 1 := accountB, 2 := transferT)"

definition appState :: state where
  "appState = initState\<lparr>heap := appHeap, nextAddr := 3\<rparr>"

definition pendingInsertA :: state where
  "pendingInsertA = appState\<lparr>insertMap := (\<lambda>_. [])(''Account'' := [(''a'', 0)])\<rparr>"

subsection \<open>States for insert\<close>

text \<open>An object of a class the schema does not know, an id cached as absent, and a second
  object with the id of the second account.\<close>

definition blockObj :: obj where
  "blockObj = \<lparr>ctor = ''Block'', oid = ''b1'', cols = Map.empty, rels = []\<rparr>"

definition withBlock :: state where
  "withBlock = appState\<lparr>heap := appHeap(3 := blockObj), nextAddr := 4\<rparr>"

definition absentB :: state where
  "absentB = appState\<lparr>cacheMap := (\<lambda>_. Map.empty)(''Account'' := [''b'' \<mapsto> None])\<rparr>"

definition richB :: obj where
  "richB = accountB\<lparr>cols := [''balance'' \<mapsto> ''99'']\<rparr>"

subsection \<open>Reads and the flush\<close>

text \<open>The state \<open>t\<close> has the calls and the write buffers of \<open>s\<close>.\<close>

definition sameWrites :: "state \<Rightarrow> state \<Rightarrow> bool" where
  "sameWrites s t = (calls t = calls s \<and> insertMap t = insertMap s \<and> upsertMap t = upsertMap s)"




subsection \<open>Deferred loads\<close>

text \<open>The calls that write to the store.\<close>

definition isWrite :: "call \<Rightarrow> bool" where
  "isWrite c = (case c of StoreInsert _ _ \<Rightarrow> True | StoreUpsert _ _ \<Rightarrow> True | _ \<Rightarrow> False)"

text \<open>The one query that \<^verbatim>\<open>load\<close> of the first variant makes for the deferred ids of a type.\<close>

definition bulkFind :: "string \<Rightarrow> deferData \<Rightarrow> call" where
  "bulkFind T d =
     StoreFind T (withDeferredRelations \<lparr>whereOpt = Some (IdIn (ids d)), relationsOpt = Some (relations d)\<rparr> d)"

subsection \<open>Absent ids\<close>

text \<open>No object of the heap carries the id \<open>k\<close> (the store holds no row of that id, and
  neither does the application), and no entity is cached under \<open>(T, k)\<close>.\<close>

definition unknownId :: "string \<Rightarrow> string \<Rightarrow> state \<Rightarrow> bool" where
  "unknownId T k s = ((\<forall>a. oid (heap s a) \<noteq> k) \<and> isNull (cacheMap s T k))"

text \<open>The id \<open>k\<close> is unknown and is either waiting in the deferred set of \<open>T\<close> or already
  has a cache entry.\<close>

definition awaited :: "string \<Rightarrow> string \<Rightarrow> state \<Rightarrow> bool" where
  "awaited T k s = (unknownId T k s \<and> (k \<in> set (deferIds s T) \<or> cacheMap s T k \<noteq> None))"

text \<open>The application defers the id \<open>x\<close>, which no account carries, and resolves the handle.\<close>

definition deferredX :: state where
  "deferredX = defer_v1 ''Account'' ''x'' None appState"

definition absentX :: state where
  "absentX = snd (resolve_v1 exampleEnv ''Account'' ''x'' deferredX)"

definition deferredX_v2 :: state where
  "deferredX_v2 = defer_v2 ''Account'' ''x'' appState"

definition absentX_v2 :: state where
  "absentX_v2 = snd (resolve_v2 exampleEnv ''Account'' ''x'' deferredX_v2)"

subsection \<open>Repeated upserts\<close>











section \<open>Basic facts about actions\<close>

lemma andThen_Inr: "m s = (Inr x, s1) \<Longrightarrow> andThen m f s = f x s1"
  by (simp add: andThen_def)


lemma andThen_gets [simp]: "andThen (gets f) g s = g (f s) s"
  by (simp add: andThen_def gets_def)

lemma andThen_ok [simp]: "andThen (ok x) g s = g x s"
  by (simp add: andThen_def ok_def)

lemma andThen_throw [simp]: "andThen (throw err) g s = (Inl err, s)"
  by (simp add: andThen_def throw_def)

lemma andThen_modify [simp]: "andThen (modify f) g s = g () (f s)"
  by (simp add: andThen_def modify_def)

lemma andThen_assert [simp]:
  "andThen (assert b msg) g s = (if b then g () s else (Inl (AssertionError msg), s))"
  by (simp add: assert_def)

lemma andThen_assoc [simp]: "andThen (andThen m f) g = andThen m (\<lambda>x. andThen (f x) g)"
  by (rule ext) (simp add: andThen_def split: prod.splits sum.splits)

lemma andThen_storeCall [simp]:
  "andThen (storeCall e c) g s =
     (if store e (calls s) c = Failed then (Inl StoreFailure, s\<lparr>calls := calls s @ [c]\<rparr>)
      else g (store e (calls s) c) (s\<lparr>calls := calls s @ [c]\<rparr>))"
  by (simp add: andThen_def storeCall_def split: response.splits)

lemma andThen_ok_right [simp]: "andThen m ok = m"
  by (rule ext) (simp add: andThen_def ok_def split: prod.splits sum.splits)

lemma andThen_ok_unit [simp]: "andThen m (\<lambda>_. ok ()) = (m :: unit action)"
  by (rule ext) (simp add: andThen_def ok_def split: prod.splits sum.splits)

lemma andThen_cases:
  assumes "andThen m f s = (r, s')"
  obtains (throws) err where "m s = (Inl err, s')" "r = Inl err"
  | (returns) x s1 where "m s = (Inr x, s1)" "f x s1 = (r, s')"
  using assms by (auto simp: andThen_def split: prod.splits sum.splits)

lemma keepsI: "(\<And>s. P s \<Longrightarrow> P (snd (m s))) \<Longrightarrow> keeps P m"
  by (simp add: keeps_def)

lemma keepsD: "keeps P m \<Longrightarrow> P s \<Longrightarrow> P (snd (m s))"
  by (simp add: keeps_def)

lemma keeps_run: "keeps P m \<Longrightarrow> P s \<Longrightarrow> m s = (r, s') \<Longrightarrow> P s'"
  by (auto simp: keeps_def)

lemma keeps_ok [simp]: "keeps P (ok x)"
  by (simp add: keeps_def ok_def)

lemma keeps_throw [simp]: "keeps P (throw x)"
  by (simp add: keeps_def throw_def)

lemma keeps_gets [simp]: "keeps P (gets f)"
  by (simp add: keeps_def gets_def)

lemma keeps_assert [simp]: "keeps P (assert b msg)"
  by (simp add: assert_def)

lemma keeps_modify: "(\<And>s. P s \<Longrightarrow> P (f s)) \<Longrightarrow> keeps P (modify f)"
  by (simp add: keeps_def modify_def)

lemma keeps_andThen: "keeps P m \<Longrightarrow> (\<And>x. keeps P (f x)) \<Longrightarrow> keeps P (andThen m f)"
  unfolding keeps_def andThen_def
  by (auto split: prod.splits sum.splits)

lemma keeps_forEach: "(\<And>x. keeps P (f x)) \<Longrightarrow> keeps P (forEach f xs)"
  by (induction xs) (auto intro: keeps_andThen)

lemma keeps_mapM: "(\<And>x. keeps P (f x)) \<Longrightarrow> keeps P (mapM f xs)"
  by (induction xs) (auto intro!: keeps_andThen)

lemma keeps_rows [simp]: "keeps P (rows r)"
  by (simp add: rows_def split: response.splits)

lemma keeps_row [simp]: "keeps P (row r)"
  by (simp add: row_def split: response.splits)

lemma keeps_counted [simp]: "keeps P (counted r)"
  by (simp add: counted_def split: response.splits)

lemma keeps_storeCall: "(\<And>s c. P s \<Longrightarrow> P (s\<lparr>calls := calls s @ [c]\<rparr>)) \<Longrightarrow> keeps P (storeCall e c)"
  by (auto simp: keeps_def storeCall_def split: response.splits)

lemma keeps_alloc:
  "(\<And>s h. P s \<Longrightarrow> P (s\<lparr>heap := h\<rparr>)) \<Longrightarrow> (\<And>s n. P s \<Longrightarrow> P (s\<lparr>nextAddr := n\<rparr>)) \<Longrightarrow> keeps P (alloc ob)"
  by (simp add: keeps_def alloc_def)

section \<open>Flush\<close>

lemma flushInserts_eq:
  "flushInserts e name s =
     (let c = StoreInsert name (map snd (insertMap s name)) in
      if insertMap s name = [] then (Inr (), s\<lparr>insertMap := (insertMap s)(name := [])\<rparr>)
      else if store e (calls s) c = Failed then (Inl StoreFailure, s\<lparr>calls := calls s @ [c]\<rparr>)
      else (Inr (), s\<lparr>calls := calls s @ [c], insertMap := (insertMap s)(name := [])\<rparr>))"
  by (simp add: flushInserts_def ok_def modify_def Let_def)

lemma flushUpserts_eq:
  "flushUpserts e name s =
     (let c = StoreUpsert name (map snd (upsertMap s name)) in
      if upsertMap s name = [] then (Inr (), s\<lparr>upsertMap := (upsertMap s)(name := [])\<rparr>)
      else if store e (calls s) c = Failed then (Inl StoreFailure, s\<lparr>calls := calls s @ [c]\<rparr>)
      else (Inr (), s\<lparr>calls := calls s @ [c], upsertMap := (upsertMap s)(name := [])\<rparr>))"
  by (simp add: flushUpserts_def ok_def modify_def Let_def)

lemma keeps_flushInserts:
  assumes c: "\<And>s c. P s \<Longrightarrow> P (s\<lparr>calls := calls s @ [c]\<rparr>)"
    and i: "\<And>s n. P s \<Longrightarrow> P (s\<lparr>insertMap := (insertMap s)(n := [])\<rparr>)"
  shows "keeps P (flushInserts e name)"
proof (rule keepsI)
  fix s assume P: "P s"
  have "P ((s\<lparr>calls := calls s @ [x]\<rparr>)\<lparr>insertMap := (insertMap (s\<lparr>calls := calls s @ [x]\<rparr>))(name := [])\<rparr>)" for x
    by (rule i [OF c [OF P]])
  then show "P (snd (flushInserts e name s))"
    using c [OF P] i [OF P] by (simp add: flushInserts_eq Let_def)
qed

lemma keeps_flushUpserts:
  assumes c: "\<And>s c. P s \<Longrightarrow> P (s\<lparr>calls := calls s @ [c]\<rparr>)"
    and u: "\<And>s n. P s \<Longrightarrow> P (s\<lparr>upsertMap := (upsertMap s)(n := [])\<rparr>)"
  shows "keeps P (flushUpserts e name)"
proof (rule keepsI)
  fix s assume P: "P s"
  have "P ((s\<lparr>calls := calls s @ [x]\<rparr>)\<lparr>upsertMap := (upsertMap (s\<lparr>calls := calls s @ [x]\<rparr>))(name := [])\<rparr>)" for x
    by (rule u [OF c [OF P]])
  then show "P (snd (flushUpserts e name s))"
    using c [OF P] u [OF P] by (simp add: flushUpserts_eq Let_def)
qed

lemma keeps_flushLoop:
  assumes "\<And>s c. P s \<Longrightarrow> P (s\<lparr>calls := calls s @ [c]\<rparr>)" "\<And>s n. P s \<Longrightarrow> P (s\<lparr>insertMap := (insertMap s)(n := [])\<rparr>)"
    "\<And>s n. P s \<Longrightarrow> P (s\<lparr>upsertMap := (upsertMap s)(n := [])\<rparr>)"
  shows "keeps P (flushLoop e c names)"
proof (induction names)
  case Nil
  show ?case by simp
next
  case (Cons name rest)
  have "keeps P (if c = Some name then ok () else flushLoop e c rest)"
    by (simp add: Cons.IH)
  then show ?case
    by (auto simp: flushName_def intro!: keeps_andThen keeps_flushInserts keeps_flushUpserts assms)
qed

text \<open>
  C10. A flush changes the insert and upsert buffers (and the calls made to the store) and
  nothing else: the entity cache and the deferred ids and relation paths are the same
  after any flush of either variant, whatever the buffers held and however the flush ends.
\<close>

theorem flush_frame:
  "untouchedByFlush s (snd (flush_v1 e c s)) \<and> untouchedByFlush s (snd (flush_v2 e c' s))"
proof -
  have "keeps (untouchedByFlush s) (flushLoop e x names)" for x names
    by (rule keeps_flushLoop) (simp_all add: untouchedByFlush_def)
  moreover have "untouchedByFlush s s" by (simp add: untouchedByFlush_def)
  ultimately show ?thesis
    by (simp add: flush_v1_def flush_v2_def keepsD)
qed


lemma before_append_notin: "x \<notin> set p \<Longrightarrow> before x y (p @ q) = before x y q"
  by (induction p) auto

lemma before_intro: "x \<notin> set a \<Longrightarrow> y \<in> set b \<Longrightarrow> before x y (a @ x # b)"
  by (induction a) auto

lemma before_elim: "before x y xs \<Longrightarrow> \<exists>a b. xs = a @ x # b \<and> x \<notin> set a \<and> y \<in> set b"
proof (induction xs)
  case Nil
  then show ?case by simp
next
  case (Cons z zs)
  show ?case
  proof (cases "z = x")
    case True
    with Cons.prems have "z # zs = [] @ x # zs \<and> x \<notin> set [] \<and> y \<in> set zs" by simp
    then show ?thesis by blast
  next
    case False
    with Cons obtain a b where "zs = a @ x # b" "x \<notin> set a" "y \<in> set b" by auto
    with False have "z # zs = (z # a) @ x # b \<and> x \<notin> set (z # a) \<and> y \<in> set b" by simp
    then show ?thesis by blast
  qed
qed

lemma before_rev: "distinct xs \<Longrightarrow> before u v xs \<Longrightarrow> before v u (rev xs)"
proof -
  assume d: "distinct xs" and b: "before u v xs"
  from before_elim [OF b] obtain a b' where xs: "xs = a @ u # b'" and "v \<in> set b'"
    by blast
  then obtain c d' where b': "b' = c @ v # d'"
    by (meson split_list)
  have r: "rev xs = rev d' @ v # (rev c @ u # rev a)"
    by (simp add: xs b')
  have "v \<notin> set (rev d')"
    using d by (auto simp: xs b')
  moreover have "u \<in> set (rev c @ u # rev a)" by simp
  ultimately show ?thesis
    unfolding r by (rule before_intro)
qed

lemma before_in_set: "before x y xs \<Longrightarrow> x \<in> set xs \<and> y \<in> set xs"
  by (auto dest!: before_elim)

lemma edges_addNode [simp]: "edges (addNode g n) = edges g"
  by (simp add: addNode_def)

lemma edges_fold_addEdge:
  "set (edges (fold (\<lambda>fk g'. addEdge g' u fk) fks g)) = set (edges g) \<union> {u} \<times> set fks"
  by (induction fks arbitrary: g) (auto simp: addEdge_def Let_def)

lemma edges_buildGraph_fold:
  "set (edges (fold (\<lambda>metadata g.
             fold (\<lambda>foreignKey g'. addEdge g' (mdName metadata) foreignKey)
               (foreignKeys metadata) (addNode g (mdName metadata))) mds g0)) =
   set (edges g0) \<union> {(mdName m, fk) | m fk. m \<in> set mds \<and> fk \<in> set (foreignKeys m)}"
  by (induction mds arbitrary: g0) (auto simp: edges_fold_addEdge)

lemma edges_buildGraph:
  "set (edges (buildGraph mds)) = {(mdName m, fk) | m fk. m \<in> set mds \<and> fk \<in> set (foreignKeys m)}"
  by (simp add: buildGraph_def edges_buildGraph_fold)

lemma referenced_first:
  assumes "isTopological (buildGraph (entityMetadatas e)) (topologicalSort e (buildGraph (entityMetadatas e)))"
    and "metadata \<in> set (entityMetadatas e)" and "B \<in> set (foreignKeys metadata)"
  shows "before B (mdName metadata) (getTopologicalOrder e)"
proof -
  let ?g = "buildGraph (entityMetadatas e)"
  have "(mdName metadata, B) \<in> set (edges ?g)"
    using assms(2,3) by (auto simp: edges_buildGraph)
  then have "before (mdName metadata) B (topologicalSort e ?g)"
    using assms(1) by (auto simp: isTopological_def list_all_iff)
  moreover have "distinct (topologicalSort e ?g)"
    using assms(1) by (simp add: isTopological_def)
  ultimately show ?thesis
    by (simp add: getTopologicalOrder_def before_rev)
qed


lemma flushInserts_effect:
  assumes "flushInserts e name s = (r, s')"
  shows "calls s' = calls s @ (if insertMap s name = [] then [] else [StoreInsert name (map snd (insertMap s name))])"
    and "upsertMap s' = upsertMap s"
    and "n \<noteq> name \<Longrightarrow> insertMap s' n = insertMap s n"
    and "r = Inr () \<Longrightarrow> insertMap s' name = []"
  using assms by (auto simp: flushInserts_eq Let_def split: if_splits)

lemma flushUpserts_effect:
  assumes "flushUpserts e name s = (r, s')"
  shows "calls s' = calls s @ (if upsertMap s name = [] then [] else [StoreUpsert name (map snd (upsertMap s name))])"
    and "insertMap s' = insertMap s"
    and "n \<noteq> name \<Longrightarrow> upsertMap s' n = upsertMap s n"
    and "r = Inr () \<Longrightarrow> upsertMap s' name = []"
  using assms by (auto simp: flushUpserts_eq Let_def split: if_splits)

lemma flushName_effect:
  assumes "flushName e name s = (r, s')"
  shows "\<exists>cs. calls s' = calls s @ cs \<and>
     set cs \<subseteq> {StoreInsert name (map snd (insertMap s name)), StoreUpsert name (map snd (upsertMap s name))} \<and>
     (insertMap s name \<noteq> [] \<longrightarrow> cs \<noteq> [] \<and> hd cs = StoreInsert name (map snd (insertMap s name))) \<and>
     (\<forall>n. n \<noteq> name \<longrightarrow> insertMap s' n = insertMap s n \<and> upsertMap s' n = upsertMap s n) \<and>
     (r = Inr () \<longrightarrow> insertMap s' name = [] \<and> upsertMap s' name = [])"
proof -
  obtain r1 s1 where one: "flushInserts e name s = (r1, s1)" by (cases "flushInserts e name s")
  note i = flushInserts_effect [OF one]
  show ?thesis
  proof (cases r1)
    case (Inl err)
    then have "s' = s1" "r = Inl err"
      using assms one by (auto simp: flushName_def andThen_def)
    then show ?thesis using i(1,2,3) by auto
  next
    case (Inr u)
    then have two: "flushUpserts e name s1 = (r, s')"
      using assms one by (auto simp: flushName_def andThen_def)
    note u = flushUpserts_effect [OF two]
    have "insertMap s1 name = []" using i(4) Inr by simp
    then show ?thesis
      using i(1,2,3) u by auto
  qed
qed

lemma flushLoop_calls:
  "flushLoop e c names s = (r, s') \<Longrightarrow> \<exists>new. calls s' = calls s @ new"
proof (induction names arbitrary: s)
  case Nil
  then show ?case by (simp add: ok_def)
next
  case (Cons name rest)
  obtain r1 s1 where step: "flushName e name s = (r1, s1)" by (cases "flushName e name s")
  from flushName_effect [OF step] obtain cs where cs: "calls s1 = calls s @ cs" by blast
  show ?case
  proof (cases "r1 = Inr () \<and> c \<noteq> Some name")
    case True
    then have "flushLoop e c rest s1 = (r, s')"
      using Cons.prems step by (simp add: andThen_def)
    from Cons.IH [OF this] cs show ?thesis by auto
  next
    case False
    then have "s' = s1"
      using Cons.prems step by (auto simp: andThen_def ok_def split: sum.splits if_splits)
    then show ?thesis using cs by simp
  qed
qed

lemma flushLoop_order:
  assumes "distinct names" "before B A names" "insertMap s B \<noteq> []"
    "flushLoop e c names s = (r, s')"
  shows "\<exists>new. calls s' = calls s @ new \<and>
     (\<forall>xs. StoreInsert A xs \<in> set new \<longrightarrow>
        before (StoreInsert B (map snd (insertMap s B))) (StoreInsert A xs) new)"
  using assms
proof (induction names arbitrary: s)
  case Nil
  then show ?case by simp
next
  case (Cons name rest)
  obtain r1 s1 where step: "flushName e name s = (r1, s1)" by (cases "flushName e name s")
  from flushName_effect [OF step] obtain cs where cs: "calls s1 = calls s @ cs"
    and sub: "set cs \<subseteq> {StoreInsert name (map snd (insertMap s name)), StoreUpsert name (map snd (upsertMap s name))}"
    and hd: "insertMap s name \<noteq> [] \<longrightarrow> cs \<noteq> [] \<and> hd cs = StoreInsert name (map snd (insertMap s name))"
    and other: "\<forall>n. n \<noteq> name \<longrightarrow> insertMap s1 n = insertMap s n \<and> upsertMap s1 n = upsertMap s n"
    by blast
  show ?case
  proof (cases "name = B")
    case True
    with Cons.prems have A: "A \<in> set rest" "A \<noteq> B" by auto
    from True hd Cons.prems(3) obtain cs' where cs': "cs = StoreInsert B (map snd (insertMap s B)) # cs'"
      by (cases cs) auto
    have stopOrGo: "\<exists>new'. calls s' = calls s1 @ new'"
    proof (cases "r1 = Inr () \<and> c \<noteq> Some name")
      case True
      then have "flushLoop e c rest s1 = (r, s')"
        using Cons.prems(4) step by (simp add: andThen_def)
      then show ?thesis
        by (rule flushLoop_calls)
    next
      case False
      then have "s' = s1"
        using Cons.prems(4) step by (auto simp: andThen_def ok_def split: sum.splits if_splits)
      then show ?thesis by simp
    qed
    then obtain new' where "calls s' = calls s @ (StoreInsert B (map snd (insertMap s B)) # cs' @ new')"
      using cs cs' by auto
    moreover have "before (StoreInsert B (map snd (insertMap s B))) (StoreInsert A xs)
        (StoreInsert B (map snd (insertMap s B)) # cs' @ new')"
      if "StoreInsert A xs \<in> set (StoreInsert B (map snd (insertMap s B)) # cs' @ new')" for xs
      using that A by auto
    ultimately show ?thesis by blast
  next
    case False
    with Cons.prems have b: "before B A rest" and nA: "name \<noteq> A" and d: "distinct rest"
      by (auto dest: before_in_set)
    have notin: "StoreInsert B ys \<notin> set cs" "StoreInsert A ys \<notin> set cs" for ys
      using sub False nA by auto
    show ?thesis
    proof (cases "r1 = Inr () \<and> c \<noteq> Some name")
      case True
      then have "flushLoop e c rest s1 = (r, s')"
        using Cons.prems(4) step by (simp add: andThen_def)
      moreover have "insertMap s1 B \<noteq> []" "insertMap s1 B = insertMap s B"
        using other False Cons.prems(3) by auto
      ultimately obtain new' where new': "calls s' = calls s1 @ new'"
        "\<forall>xs. StoreInsert A xs \<in> set new' \<longrightarrow>
           before (StoreInsert B (map snd (insertMap s B))) (StoreInsert A xs) new'"
        using Cons.IH [OF d b, of s1] by auto
      have "calls s' = calls s @ (cs @ new')"
        using cs new' by simp
      moreover have "before (StoreInsert B (map snd (insertMap s B))) (StoreInsert A xs) (cs @ new')"
        if "StoreInsert A xs \<in> set (cs @ new')" for xs
        using that new'(2) notin by (simp add: before_append_notin)
      ultimately show ?thesis by blast
    next
      case False
      then have "s' = s1"
        using Cons.prems(4) step by (auto simp: andThen_def ok_def split: sum.splits if_splits)
      then have "calls s' = calls s @ cs" using cs by simp
      moreover have "StoreInsert A xs \<notin> set cs" for xs by (rule notin)
      ultimately show ?thesis by blast
    qed
  qed
qed


lemma flushLoop_issued:
  assumes "A \<in> set names" "c = None \<or> c = Some A" "insertMap s A \<noteq> []"
    "flushLoop e c names s = (Inr (), s')" "calls s' = calls s @ new"
  shows "StoreInsert A (map snd (insertMap s A)) \<in> set new"
  using assms
proof (induction names arbitrary: s new)
  case Nil
  then show ?case by simp
next
  case (Cons name rest)
  obtain r1 s1 where step: "flushName e name s = (r1, s1)" by (cases "flushName e name s")
  from flushName_effect [OF step] obtain cs where cs: "calls s1 = calls s @ cs"
    and hd: "insertMap s name \<noteq> [] \<longrightarrow> cs \<noteq> [] \<and> hd cs = StoreInsert name (map snd (insertMap s name))"
    and other: "\<forall>n. n \<noteq> name \<longrightarrow> insertMap s1 n = insertMap s n \<and> upsertMap s1 n = upsertMap s n"
    by blast
  have r1: "r1 = Inr ()"
    using Cons.prems(4) step by (auto simp: andThen_def split: sum.splits)
  then have rest: "(if c = Some name then ok () else flushLoop e c rest) s1 = (Inr (), s')"
    using Cons.prems(4) step by (simp add: andThen_def)
  then obtain new' where new': "calls s' = calls s1 @ new'"
    by (cases "c = Some name") (auto simp: ok_def dest: flushLoop_calls)
  then have new: "new = cs @ new'" using cs Cons.prems(5) by simp
  show ?case
  proof (cases "name = A")
    case True
    with hd Cons.prems(3) have "StoreInsert A (map snd (insertMap s A)) \<in> set cs"
      by (cases cs) auto
    then show ?thesis by (simp add: new)
  next
    case False
    then have "flushLoop e c rest s1 = (Inr (), s')" "A \<in> set rest" "insertMap s1 A = insertMap s A"
      using rest Cons.prems(1,2) other by auto
    with Cons.IH [of s1 new'] Cons.prems(2,3) new' show ?thesis
      by (simp add: new)
  qed
qed

text \<open>
  C1. Let type \<open>A\<close> have a foreign key to type \<open>B\<close>, and let both have pending inserts.
  The write order lists \<open>B\<close> before \<open>A\<close>; in every flush, a bulk insert for \<open>A\<close> is preceded
  by the bulk insert of the pending entities of \<open>B\<close>; and a flush that returns and is not
  stopped before \<open>A\<close> issues the bulk insert for \<open>A\<close>. The library's topological sort is taken
  to return a topological order of the graph it is given.
\<close>

theorem flush_foreign_key_order:
  assumes "isTopological (buildGraph (entityMetadatas e)) (topologicalSort e (buildGraph (entityMetadatas e)))"
    and "metadata \<in> set (entityMetadatas e)" and "mdName metadata = A" and "B \<in> set (foreignKeys metadata)"
    and "insertMap s A \<noteq> []" and "insertMap s B \<noteq> []"
    and "flush_v1 e c s = (r, s')"
  shows "before B A (getTopologicalOrder e) \<and>
    (\<exists>new. calls s' = calls s @ new \<and>
       (\<forall>xs. StoreInsert A xs \<in> set new \<longrightarrow>
          before (StoreInsert B (map snd (insertMap s B))) (StoreInsert A xs) new) \<and>
       ((c = None \<or> c = Some A) \<and> r = Inr () \<longrightarrow>
          StoreInsert A (map snd (insertMap s A)) \<in> set new))"
proof -
  have b: "before B A (getTopologicalOrder e)"
    using referenced_first [OF assms(1,2,4)] assms(3) by simp
  have d: "distinct (getTopologicalOrder e)"
    using assms(1) by (simp add: isTopological_def getTopologicalOrder_def)
  have run: "flushLoop e c (getTopologicalOrder e) s = (r, s')"
    using assms(7) by (simp add: flush_v1_def)
  from flushLoop_order [OF d b assms(6) run] obtain new where new: "calls s' = calls s @ new"
    "\<forall>xs. StoreInsert A xs \<in> set new \<longrightarrow>
       before (StoreInsert B (map snd (insertMap s B))) (StoreInsert A xs) new"
    by blast
  have "StoreInsert A (map snd (insertMap s A)) \<in> set new" if "c = None \<or> c = Some A" "r = Inr ()"
    using flushLoop_issued [OF _ that(1) assms(5) _ new(1)] run that(2) b
    by (auto dest: before_in_set)
  with b new show ?thesis by blast
qed

theorem flush_foreign_key_order_witness:
  "isTopological (buildGraph (entityMetadatas exampleEnv))
     (topologicalSort exampleEnv (buildGraph (entityMetadatas exampleEnv))) \<and>
   mdTransfer \<in> set (entityMetadatas exampleEnv) \<and> ''Account'' \<in> set (foreignKeys mdTransfer) \<and>
   insertMap pendingBoth ''Transfer'' \<noteq> [] \<and> insertMap pendingBoth ''Account'' \<noteq> [] \<and>
   fst (flush_v1 exampleEnv None pendingBoth) = Inr () \<and>
   calls (snd (flush_v1 exampleEnv None pendingBoth)) =
     [StoreInsert ''Account'' [0, 1], StoreInsert ''Transfer'' [2]] \<and>
   before ''Account'' ''Transfer'' (getTopologicalOrder exampleEnv) \<and>
   before (StoreInsert ''Account'' [0, 1]) (StoreInsert ''Transfer'' [2])
     (calls (snd (flush_v1 exampleEnv None pendingBoth)))"
proof -
  have topo: "isTopological (buildGraph (entityMetadatas exampleEnv))
     (topologicalSort exampleEnv (buildGraph (entityMetadatas exampleEnv)))"
    by (simp add: isTopological_def exampleEnv_def buildGraph_def mdAccount_def mdTransfer_def
        addNode_def addEdge_def)
  have m: "mdTransfer \<in> set (entityMetadatas exampleEnv)" by (simp add: exampleEnv_def)
  have n: "mdName mdTransfer = ''Transfer''" by (simp add: mdTransfer_def)
  have fk: "''Account'' \<in> set (foreignKeys mdTransfer)" by (simp add: mdTransfer_def)
  have pa: "insertMap pendingBoth ''Transfer'' \<noteq> []" by (simp add: pendingBoth_def)
  have pb: "insertMap pendingBoth ''Account'' \<noteq> []" by (simp add: pendingBoth_def)
  have run: "flush_v1 exampleEnv None pendingBoth =
     (fst (flush_v1 exampleEnv None pendingBoth), snd (flush_v1 exampleEnv None pendingBoth))"
    by simp
  have res: "fst (flush_v1 exampleEnv None pendingBoth) = Inr ()"
    "calls (snd (flush_v1 exampleEnv None pendingBoth)) =
       [StoreInsert ''Account'' [0, 1], StoreInsert ''Transfer'' [2]]"
    by (simp_all add: flush_v1_def getTopologicalOrder_def exampleEnv_def flushName_def flushInserts_eq
        flushUpserts_eq andThen_def ok_def pendingBoth_def initState_def)
  show ?thesis
    using flush_foreign_key_order [OF topo m n fk pa pb run] topo m fk pa pb res
    by (simp add: pendingBoth_def initState_def)
qed

section \<open>What cache leaves alone\<close>

lemma keeps_cacheColumn:
  assumes h: "\<And>s h. P s \<Longrightarrow> P (s\<lparr>heap := h\<rparr>)"
    and rec: "\<And>v. keeps P (rec v)"
  shows "keeps P (cacheColumn rec entity cached col)"
  unfolding cacheColumn_def setRelation_def copyColumn_def
  by (auto split: option.splits intro!: keeps_andThen keeps_modify h rec)

lemma keeps_cacheEntity:
  assumes h: "\<And>s h. P s \<Longrightarrow> P (s\<lparr>heap := h\<rparr>)"
    and n: "\<And>s n. P s \<Longrightarrow> P (s\<lparr>nextAddr := n\<rparr>)"
    and c: "\<And>s n k v. P s \<Longrightarrow> P (setCache n k v s)"
    and rec: "\<And>v. keeps P (rec v)"
  shows "keeps P (cacheEntity rec e mapName entity)"
  unfolding cacheEntity_def
  by (auto split: option.splits
      intro!: keeps_andThen keeps_alloc keeps_forEach keeps_cacheColumn keeps_modify h n c rec)

lemma keeps_cacheStep:
  assumes h: "\<And>s h. P s \<Longrightarrow> P (s\<lparr>heap := h\<rparr>)"
    and n: "\<And>s n. P s \<Longrightarrow> P (s\<lparr>nextAddr := n\<rparr>)"
    and c: "\<And>s n k v. P s \<Longrightarrow> P (setCache n k v s)"
    and rec: "\<And>v. keeps P (rec v)"
  shows "keeps P (cacheStep rec e v)"
  unfolding cacheStep_def
  by (auto split: relval.splits list.splits
      intro!: keeps_andThen keeps_mapM keeps_cacheEntity h n c rec)

lemma keeps_cache_v1:
  assumes h: "\<And>s h. P s \<Longrightarrow> P (s\<lparr>heap := h\<rparr>)"
    and n: "\<And>s n. P s \<Longrightarrow> P (s\<lparr>nextAddr := n\<rparr>)"
    and c: "\<And>s n k v. P s \<Longrightarrow> P (setCache n k v s)"
  shows "keeps P (cache_v1 e v)"
proof -
  have "keeps P (cacheRec k e v)" for k
  proof (induction k arbitrary: v)
    case 0
    show ?case by simp
  next
    case (Suc k)
    show ?case by (simp add: keeps_cacheStep h n c Suc)
  qed
  then show ?thesis by (simp add: cache_v1_def)
qed

section \<open>The two write buffers never share an id\<close>

lemma bufferProperty_same:
  "bufferProperty P \<Longrightarrow> insertMap t = insertMap s \<Longrightarrow> upsertMap t = upsertMap s \<Longrightarrow> P s \<Longrightarrow> P t"
  unfolding bufferProperty_def by blast

lemma bufferProperty_fields:
  assumes "bufferProperty P" "P s"
  shows "P (s\<lparr>heap := h\<rparr>)" "P (s\<lparr>nextAddr := n\<rparr>)" "P (s\<lparr>cacheMap := c\<rparr>)"
    "P (s\<lparr>deferMap := d\<rparr>)" "P (s\<lparr>deferList := l\<rparr>)" "P (s\<lparr>classes := cl\<rparr>)"
    "P (s\<lparr>calls := cs\<rparr>)"
  using assms by (auto elim!: bufferProperty_same [rotated 3, of P s])

lemma bufferProperty_clear:
  assumes "bufferProperty P" "P s"
  shows "P (s\<lparr>insertMap := (insertMap s)(n := [])\<rparr>)" "P (s\<lparr>upsertMap := (upsertMap s)(n := [])\<rparr>)"
  using assms unfolding bufferProperty_def by blast+

lemma keeps_flush_v1: "bufferProperty P \<Longrightarrow> keeps P (flush_v1 e c)"
  unfolding flush_v1_def
  by (rule keeps_flushLoop) (simp_all add: bufferProperty_fields bufferProperty_clear)

lemma keeps_cache_v1': "bufferProperty P \<Longrightarrow> keeps P (cache_v1 e v)"
  by (rule keeps_cache_v1) (simp_all add: bufferProperty_fields setCache_def)

lemma keeps_storeCall': "bufferProperty P \<Longrightarrow> keeps P (storeCall e c)"
  by (rule keeps_storeCall) (simp_all add: bufferProperty_fields)

lemma keeps_find_v1: "bufferProperty P \<Longrightarrow> keeps P (find_v1 e c q)"
  unfolding find_v1_def
  by (intro keeps_andThen keeps_flush_v1 keeps_gets keeps_storeCall' keeps_rows keeps_cache_v1' keeps_ok)

lemma keeps_findBy_v1: "bufferProperty P \<Longrightarrow> keeps P (findBy_v1 e c q)"
  unfolding findBy_v1_def
  by (intro keeps_andThen keeps_flush_v1 keeps_storeCall' keeps_rows keeps_cache_v1' keeps_ok)

lemma keeps_findOne_v1: "bufferProperty P \<Longrightarrow> keeps P (findOne_v1 e c q)"
  unfolding findOne_v1_def
  by (intro keeps_andThen keeps_flush_v1 keeps_gets keeps_storeCall' keeps_row)
     (auto split: option.splits intro!: keeps_andThen keeps_cache_v1')

lemma keeps_findOneBy_v1: "bufferProperty P \<Longrightarrow> keeps P (findOneBy_v1 e c q)"
  unfolding findOneBy_v1_def
  by (intro keeps_andThen keeps_flush_v1 keeps_storeCall' keeps_row)
     (auto split: option.splits intro!: keeps_andThen keeps_cache_v1')

lemma keeps_count_v1: "bufferProperty P \<Longrightarrow> keeps P (count_v1 e c q)"
  unfolding count_v1_def
  by (intro keeps_andThen keeps_flush_v1 keeps_storeCall' keeps_counted)

lemma keeps_countBy_v1: "bufferProperty P \<Longrightarrow> keeps P (countBy_v1 e c q)"
  unfolding countBy_v1_def
  by (intro keeps_andThen keeps_flush_v1 keeps_storeCall' keeps_counted)

lemma keeps_load_v1: "bufferProperty P \<Longrightarrow> keeps P (load_v1 e c)"
  unfolding load_v1_def
  by (auto intro!: keeps_andThen keeps_forEach keeps_modify keeps_find_v1
      simp: markAbsent_def setCache_def bufferProperty_fields)

lemma keeps_if: "(b \<Longrightarrow> keeps P m) \<Longrightarrow> (\<not> b \<Longrightarrow> keeps P n) \<Longrightarrow> keeps P (if b then m else n)"
  by simp

lemma keeps_case_option:
  "keeps P m \<Longrightarrow> (\<And>x. keeps P (f x)) \<Longrightarrow> keeps P (case v of None \<Rightarrow> m | Some x \<Rightarrow> f x)"
  by (cases v) simp_all

lemma keeps_case_relval:
  "keeps P m \<Longrightarrow> (\<And>x. keeps P (f x)) \<Longrightarrow> (\<And>x. keeps P (g x)) \<Longrightarrow>
   keeps P (case v of RNull \<Rightarrow> m | RRef x \<Rightarrow> f x | RArr xs \<Rightarrow> g xs)"
  by (cases v) simp_all

lemma keeps_case_prod: "(\<And>a b. keeps P (f a b)) \<Longrightarrow> keeps P (case x of (a, b) \<Rightarrow> f a b)"
  by (cases x) simp

lemma keeps_case_list:
  "keeps P m \<Longrightarrow> (\<And>x xs. keeps P (f x xs)) \<Longrightarrow> keeps P (case v of [] \<Rightarrow> m | x # xs \<Rightarrow> f x xs)"
  by (cases v) simp_all

lemma keeps_case_idOrOptions:
  "(\<And>x. keeps P (f x)) \<Longrightarrow> (\<And>x. keeps P (g x)) \<Longrightarrow>
   keeps P (case v of Id x \<Rightarrow> f x | Options x \<Rightarrow> g x)"
  by (cases v) simp_all

lemmas keeps_intros =
  keeps_andThen keeps_gets keeps_ok keeps_throw keeps_assert keeps_forEach keeps_mapM
  keeps_rows keeps_row keeps_counted keeps_if keeps_case_option keeps_case_relval
  keeps_case_prod keeps_case_list keeps_case_idOrOptions

lemma keeps_copy: "bufferProperty P \<Longrightarrow> keeps P (copy e a)"
proof -
  assume b: "bufferProperty P"
  have "keeps P (copyRec k a)" for k
  proof (induction k arbitrary: a)
    case 0
    show ?case by simp
  next
    case (Suc k)
    show ?case
      unfolding copyRec.simps copyStep_def
      by (intro keeps_intros keeps_alloc Suc) (simp_all add: bufferProperty_fields b)
  qed
  then show ?thesis by (simp add: copy_def)
qed

lemma keeps_getFromStore_v1: "bufferProperty P \<Longrightarrow> keeps P (getFromStore_v1 e c q)"
  unfolding getFromStore_v1_def
  by (intro keeps_andThen keeps_flush_v1 keeps_storeCall' keeps_row)
     (auto split: option.splits intro!: keeps_andThen keeps_cache_v1')

lemma keeps_get_v1: "bufferProperty P \<Longrightarrow> keeps P (get_v1 e c q)"
  unfolding get_v1_def
  by (auto split: idOrOptions.splits option.splits
      intro!: keeps_andThen keeps_load_v1 keeps_copy keeps_getFromStore_v1)

lemma bufferProperty_disjoint: "bufferProperty buffersDisjoint"
  by (auto simp: bufferProperty_def buffersDisjoint_def has_def)


lemma has_update [simp]: "has (AList.update k v m) k' = (k' = k \<or> has m k')"
  by (simp add: has_def update_conv')

lemma has_Nil [simp]: "\<not> has [] k"
  by (simp add: has_def)

lemma cache_v1_frame:
  assumes "cache_v1 e v s = (r, s1)"
  shows "insertMap s1 = insertMap s" "upsertMap s1 = upsertMap s" "calls s1 = calls s"
    "deferMap s1 = deferMap s" "deferList s1 = deferList s" "classes s1 = classes s"
proof -
  let ?P = "\<lambda>t. insertMap t = insertMap s \<and> upsertMap t = upsertMap s \<and> calls t = calls s \<and>
     deferMap t = deferMap s \<and> deferList t = deferList s \<and> classes t = classes s"
  have "keeps ?P (cache_v1 e v)"
    by (rule keeps_cache_v1) (simp_all add: setCache_def)
  from keeps_run [OF this _ assms]
  show "insertMap s1 = insertMap s" "upsertMap s1 = upsertMap s" "calls s1 = calls s"
    "deferMap s1 = deferMap s" "deferList s1 = deferList s" "classes s1 = classes s"
    by simp_all
qed

lemma keeps_insertEntity_v1: "keeps buffersDisjoint (insertEntity_v1 e n a)"
proof (rule keepsI)
  fix s assume d: "buffersDisjoint s"
  obtain r s1 where c: "cache_v1 e (RRef a) s = (r, s1)" by (cases "cache_v1 e (RRef a) s")
  note f = cache_v1_frame [OF c]
  have d1: "buffersDisjoint s1"
    using d f by (simp add: buffersDisjoint_def)
  have "buffersDisjoint (setInsert n (oid (heap s a)) x s1)" if "\<not> has (upsertMap s n) (oid (heap s a))" for x
    using d1 that f by (auto simp: buffersDisjoint_def setInsert_def)
  then show "buffersDisjoint (snd (insertEntity_v1 e n a s))"
    using d d1 c
    by (cases r) (auto simp: insertEntity_v1_def andThen_def [of "cache_v1 e (RRef a)"] modify_def ok_def
        split: relval.splits)
qed

lemma keeps_upsertEntity_v1: "keeps buffersDisjoint (upsertEntity_v1 e n a)"
proof (rule keepsI)
  fix s assume d: "buffersDisjoint s"
  obtain r s1 where c: "cache_v1 e (RRef a) s = (r, s1)" by (cases "cache_v1 e (RRef a) s")
  note f = cache_v1_frame [OF c]
  have d1: "buffersDisjoint s1"
    using d f by (simp add: buffersDisjoint_def)
  have "buffersDisjoint (setUpsert n (oid (heap s a)) x s1)" if "\<not> has (insertMap s1 n) (oid (heap s a))" for x
    using d1 that by (auto simp: buffersDisjoint_def setUpsert_def)
  then show "buffersDisjoint (snd (upsertEntity_v1 e n a s))"
    using d d1 c
    by (cases r) (auto simp: upsertEntity_v1_def andThen_def [of "cache_v1 e (RRef a)"] modify_def ok_def
        split: relval.splits)
qed

lemma keeps_insert_v1: "keeps buffersDisjoint (insert_v1 e v)"
  unfolding insert_v1_def
  by (intro keeps_intros keeps_insertEntity_v1)

lemma keeps_upsert_v1: "keeps buffersDisjoint (upsert_v1 e v)"
  unfolding upsert_v1_def
  by (intro keeps_intros keeps_upsertEntity_v1)

lemma perform_v1_disjoint: "buffersDisjoint s \<Longrightarrow> buffersDisjoint (perform_v1 e opn s)"
proof (cases opn)
  case (OpDefer c k r)
  then show "buffersDisjoint s \<Longrightarrow> ?thesis"
    by (simp add: perform_v1_def defer_v1_def buffersDisjoint_def Let_def)
next
  case (AppWrite a ob)
  then show "buffersDisjoint s \<Longrightarrow> ?thesis"
    by (simp add: perform_v1_def buffersDisjoint_def)
qed (simp_all add: perform_v1_def keepsD keeps_insert_v1 keeps_upsert_v1 keeps_get_v1 keeps_find_v1
      keeps_findBy_v1 keeps_findOne_v1 keeps_findOneBy_v1 keeps_count_v1 keeps_countBy_v1
      keeps_flush_v1 bufferProperty_disjoint)

lemma upsertEntity_v1_pending:
  assumes "has (insertMap s n) (oid (heap s a))"
  shows "upsertMap (snd (upsertEntity_v1 e n a s)) = upsertMap s"
proof -
  obtain r s1 where c: "cache_v1 e (RRef a) s = (r, s1)" by (cases "cache_v1 e (RRef a) s")
  note f = cache_v1_frame [OF c]
  show ?thesis
    using c f assms
    by (cases r) (auto simp: upsertEntity_v1_def andThen_def [of "cache_v1 e (RRef a)"] modify_def ok_def
        split: relval.splits)
qed

text \<open>
  C7. Whatever insert, upsert, defer, read and flush operations are run (the application
  may create and change its objects in between), no id is pending in both the insert and
  the upsert buffer of a type; and an upsert of an entity whose id is pending in the
  insert buffer of its type leaves both buffers as they are.
\<close>

theorem insert_or_upsert_never_both:
  "(buffersDisjoint s \<longrightarrow> buffersDisjoint (fold (perform_v1 e) ops s)) \<and>
   buffersDisjoint (fold (perform_v1 e) ops (initState\<lparr>heap := h, nextAddr := n\<rparr>)) \<and>
   (has (insertMap s (ctor (heap s a))) (oid (heap s a)) \<longrightarrow>
      upsertMap (snd (upsert_v1 e (RRef a) s)) = upsertMap s \<and>
      insertMap (snd (upsert_v1 e (RRef a) s)) = insertMap s)"
proof -
  have 1: "buffersDisjoint s \<Longrightarrow> buffersDisjoint (fold (perform_v1 e) ops s)" for s
    by (induction ops arbitrary: s) (simp_all add: perform_v1_disjoint)
  have 2: "buffersDisjoint (initState\<lparr>heap := h, nextAddr := n\<rparr>)"
    by (simp add: buffersDisjoint_def initState_def)
  have 3: "upsertMap (snd (upsert_v1 e (RRef a) s)) = upsertMap s"
    if "has (insertMap s (ctor (heap s a))) (oid (heap s a))"
    using upsertEntity_v1_pending [OF that, of e]
    by (simp add: upsert_v1_def entitiesOf_def)
  have "keeps (\<lambda>t. insertMap t = insertMap s) (upsert_v1 e (RRef a))"
    unfolding upsert_v1_def upsertEntity_v1_def
    by (intro keeps_intros keeps_cache_v1 keeps_modify) (simp_all add: setUpsert_def setCache_def)
  then have 4: "insertMap (snd (upsert_v1 e (RRef a) s)) = insertMap s"
    by (simp add: keeps_def)
  show ?thesis
    using 1 2 3 4 by blast
qed

theorem insert_or_upsert_never_both_witness:
  "buffersDisjoint pendingInsertA \<and>
   buffersDisjoint (fold (perform_v1 exampleEnv)
      [OpUpsert (RRef 0), OpInsert (RRef 2), OpUpsert (RArr [0, 1]), OpGet ''Account'' (Id ''b''),
       OpFlush None] pendingInsertA) \<and>
   has (insertMap pendingInsertA (ctor (heap pendingInsertA 0))) (oid (heap pendingInsertA 0)) \<and>
   upsertMap (snd (upsert_v1 exampleEnv (RRef 0) pendingInsertA)) = upsertMap pendingInsertA"
proof -
  have d: "buffersDisjoint pendingInsertA"
    by (simp add: buffersDisjoint_def pendingInsertA_def appState_def initState_def)
  have p: "has (insertMap pendingInsertA (ctor (heap pendingInsertA 0))) (oid (heap pendingInsertA 0))"
    by (simp add: pendingInsertA_def appState_def initState_def appHeap_def accountA_def has_def)
  show ?thesis
    using insert_or_upsert_never_both [where s = pendingInsertA and e = exampleEnv and a = 0 and
        ops = "[OpUpsert (RRef 0), OpInsert (RRef 2), OpUpsert (RArr [0, 1]),
                OpGet ''Account'' (Id ''b''), OpFlush None]"] d p
    by blast
qed

section \<open>Insert and its assertions\<close>

lemma andThen_alloc [simp]:
  "andThen (alloc ob) g s = g (nextAddr s) (s\<lparr>heap := (heap s)(nextAddr s := ob), nextAddr := Suc (nextAddr s)\<rparr>)"
  by (simp add: andThen_def alloc_def)

lemma cache_v1_RRef:
  assumes "cache_v1 e (RRef a) s = (Inr r, s1)"
  shows "\<exists>c. r = RRef c"
proof (cases "stackLimit e")
  case 0
  with assms show ?thesis by (simp add: cache_v1_def throw_def)
next
  case (Suc k)
  with assms show ?thesis
    by (auto simp: cache_v1_def cacheStep_def entitiesOf_def ok_def elim!: andThen_cases)
qed

lemma insertEntity_v1_result:
  "fst (insertEntity_v1 e T a s) =
     (if has (insertMap s T) (oid (heap s a)) \<or> has (upsertMap s T) (oid (heap s a)) \<or>
         \<not> isNull (cacheMap s T (oid (heap s a)))
      then Inl (AssertionError [])
      else (case fst (cache_v1 e (RRef a) s) of Inl err \<Rightarrow> Inl err | Inr _ \<Rightarrow> Inr ()))"
proof -
  obtain r s1 where c: "cache_v1 e (RRef a) s = (r, s1)" by (cases "cache_v1 e (RRef a) s")
  show ?thesis
    using c
    by (cases r) (auto simp: insertEntity_v1_def andThen_def [of "cache_v1 e (RRef a)"] modify_def ok_def
        split: relval.splits)
qed

lemma insertEntity_v1_pending:
  assumes "fst (insertEntity_v1 e T a s) = Inr ()"
  shows "has (insertMap (snd (insertEntity_v1 e T a s)) T) (oid (heap s a))"
proof -
  obtain r s1 where c: "cache_v1 e (RRef a) s = (r, s1)" by (cases "cache_v1 e (RRef a) s")
  show ?thesis
  proof (cases r)
    case (Inl err)
    with c assms show ?thesis
      by (auto simp: insertEntity_v1_def andThen_def [of "cache_v1 e (RRef a)"] split: if_splits)
  next
    case (Inr v)
    with c cache_v1_RRef [of e a s v s1] obtain x where "v = RRef x" by auto
    with c assms Inr show ?thesis
      by (auto simp: insertEntity_v1_def andThen_def [of "cache_v1 e (RRef a)"] modify_def setInsert_def
          split: if_splits)
  qed
qed

lemma insert_v1_single: "insert_v1 e (RRef a) s = insertEntity_v1 e (ctor (heap s a)) a s"
  by (simp add: insert_v1_def entitiesOf_def)

lemma insert_v2_single: "insert_v2 (RRef a) s = insertEntity_v2 (ctor (heap s a)) a s"
  by (simp add: insert_v2_def entitiesOf_def)

lemma deferDelete_fields [simp]:
  "insertMap (deferDelete n k s) = insertMap s" "upsertMap (deferDelete n k s) = upsertMap s"
  "cacheMap (deferDelete n k s) = cacheMap s" "heap (deferDelete n k s) = heap s"
  "calls (deferDelete n k s) = calls s"
  by (simp_all add: deferDelete_def setDeferIds_def)

lemma insertEntity_v2_result:
  "fst (insertEntity_v2 T a s) =
     (if has (insertMap s T) (oid (heap s a)) \<or> has (upsertMap s T) (oid (heap s a)) \<or>
         \<not> isNull (cacheMap s T (oid (heap s a)))
      then Inl (AssertionError []) else Inr ())"
  by (simp add: insertEntity_v2_def modify_def)

lemma insertEntity_v2_pending:
  assumes "fst (insertEntity_v2 T a s) = Inr ()"
  shows "has (insertMap (snd (insertEntity_v2 T a s)) T) (oid (heap s a))"
  using assms by (simp add: insertEntity_v2_def modify_def setInsert_def setCache_def split: if_splits)

text \<open>
  C3 (amended). For a single entity, of class \<open>T\<close> and id \<open>k\<close>, insert fails its duplicate
  assertion exactly when \<open>k\<close> is pending in the insert or the upsert buffer of \<open>T\<close> or has
  a cache entry of \<open>T\<close> that is not the absent marker. Otherwise the second variant returns,
  and the first variant returns unless caching the entity throws (missing metadata, a
  one-to-many relation, the recursion limit). After an insert that returned, inserting
  any object of the same class and id fails the assertion, whatever else it holds. An id
  whose cache entry is the absent marker, pending in neither buffer, passes the assertion.
\<close>

theorem insert_duplicate_assertion:
  fixes s :: state and a b :: addr
  defines "T \<equiv> ctor (heap s a)" and "k \<equiv> oid (heap s a)"
  defines "duplicate \<equiv> has (insertMap s T) k \<or> has (upsertMap s T) k \<or> \<not> isNull (cacheMap s T k)"
  shows "fst (insert_v1 e (RRef a) s) =
           (if duplicate then Inl (AssertionError [])
            else case fst (cache_v1 e (RRef a) s) of Inl err \<Rightarrow> Inl err | Inr _ \<Rightarrow> Inr ()) \<and>
         fst (insert_v2 (RRef a) s) = (if duplicate then Inl (AssertionError []) else Inr ()) \<and>
         (fst (insert_v1 e (RRef a) s) = Inr () \<and> ctor ob = T \<and> oid ob = k \<longrightarrow>
            fst (insert_v1 e (RRef b)
               ((snd (insert_v1 e (RRef a) s))\<lparr>heap := (heap (snd (insert_v1 e (RRef a) s)))(b := ob)\<rparr>)) =
              Inl (AssertionError [])) \<and>
         (fst (insert_v2 (RRef a) s) = Inr () \<and> ctor ob = T \<and> oid ob = k \<longrightarrow>
            fst (insert_v2 (RRef b)
               ((snd (insert_v2 (RRef a) s))\<lparr>heap := (heap (snd (insert_v2 (RRef a) s)))(b := ob)\<rparr>)) =
              Inl (AssertionError [])) \<and>
         (cacheMap s T k = Some None \<and> \<not> has (insertMap s T) k \<and> \<not> has (upsertMap s T) k \<longrightarrow>
            fst (insert_v2 (RRef a) s) = Inr () \<and>
            fst (insert_v1 e (RRef a) s) =
              (case fst (cache_v1 e (RRef a) s) of Inl err \<Rightarrow> Inl err | Inr _ \<Rightarrow> Inr ()))"
proof -
  have 1: "fst (insert_v1 e (RRef a) s) =
           (if duplicate then Inl (AssertionError [])
            else case fst (cache_v1 e (RRef a) s) of Inl err \<Rightarrow> Inl err | Inr _ \<Rightarrow> Inr ())"
    by (simp add: insert_v1_single insertEntity_v1_result duplicate_def T_def k_def)
  have 2: "fst (insert_v2 (RRef a) s) = (if duplicate then Inl (AssertionError []) else Inr ())"
    by (simp add: insert_v2_single insertEntity_v2_result duplicate_def T_def k_def)
  have 3: "fst (insert_v1 e (RRef b)
               ((snd (insert_v1 e (RRef a) s))\<lparr>heap := (heap (snd (insert_v1 e (RRef a) s)))(b := ob)\<rparr>)) =
              Inl (AssertionError [])"
    if "fst (insert_v1 e (RRef a) s) = Inr ()" "ctor ob = T" "oid ob = k"
    using insertEntity_v1_pending [of e T a s] that
    by (simp add: insert_v1_single insertEntity_v1_result T_def k_def)
  have 4: "fst (insert_v2 (RRef b)
               ((snd (insert_v2 (RRef a) s))\<lparr>heap := (heap (snd (insert_v2 (RRef a) s)))(b := ob)\<rparr>)) =
              Inl (AssertionError [])"
    if "fst (insert_v2 (RRef a) s) = Inr ()" "ctor ob = T" "oid ob = k"
    using insertEntity_v2_pending [of T a s] that
    by (simp add: insert_v2_single insertEntity_v2_result T_def k_def)
  have 5: "fst (insert_v2 (RRef a) s) = Inr () \<and>
            fst (insert_v1 e (RRef a) s) =
              (case fst (cache_v1 e (RRef a) s) of Inl err \<Rightarrow> Inl err | Inr _ \<Rightarrow> Inr ())"
    if "cacheMap s T k = Some None" "\<not> has (insertMap s T) k" "\<not> has (upsertMap s T) k"
    using that 1 2 by (auto simp: duplicate_def isNull_def split: sum.splits)
  show ?thesis
    using 1 2 3 4 5 by blast
qed

lemmas action_defs = ok_def throw_def gets_def modify_def alloc_def

lemmas cache_v1_defs = cache_v1_def cacheStep_def cacheEntity_def cacheColumn_def setRelation_def
  copyColumn_def setCache_def entitiesOf_def

lemmas example_defs = exampleEnv_def mdAccount_def mdTransfer_def appState_def appHeap_def
  accountA_def accountB_def transferT_def initState_def emptyObj_def emptyDeferData_def

theorem insert_duplicate_assertion_counterexample:
  "\<not> has (insertMap withBlock ''Block'') ''b1'' \<and> \<not> has (upsertMap withBlock ''Block'') ''b1'' \<and>
   cacheMap withBlock ''Block'' ''b1'' = None \<and> ctor (heap withBlock 3) = ''Block'' \<and>
   oid (heap withBlock 3) = ''b1'' \<and>
   fst (insert_v1 exampleEnv (RRef 3) withBlock) = Inl (AssertionError ''Missing metadata for Block'')"
  by (simp add: withBlock_def blockObj_def insert_v1_def insertEntity_v1_def isNull_def
      cache_v1_defs action_defs example_defs eval_nat_numeral)

theorem insert_duplicate_assertion_witness:
  "fst (insert_v1 exampleEnv (RRef 1) appState) = Inr () \<and>
   ctor richB = ctor (heap appState 1) \<and> oid richB = oid (heap appState 1) \<and>
   fst (insert_v1 exampleEnv (RRef 3)
      ((snd (insert_v1 exampleEnv (RRef 1) appState))
         \<lparr>heap := (heap (snd (insert_v1 exampleEnv (RRef 1) appState)))(3 := richB)\<rparr>)) =
     Inl (AssertionError []) \<and>
   fst (insert_v2 (RRef 1) appState) = Inr () \<and>
   fst (insert_v2 (RRef 3)
      ((snd (insert_v2 (RRef 1) appState))
         \<lparr>heap := (heap (snd (insert_v2 (RRef 1) appState)))(3 := richB)\<rparr>)) =
     Inl (AssertionError []) \<and>
   cacheMap absentB ''Account'' ''b'' = Some None \<and>
   \<not> has (insertMap absentB ''Account'') ''b'' \<and> \<not> has (upsertMap absentB ''Account'') ''b'' \<and>
   fst (insert_v2 (RRef 1) absentB) = Inr () \<and>
   fst (insert_v1 exampleEnv (RRef 1) absentB) = Inr ()"
proof -
  have h1: "fst (insert_v1 exampleEnv (RRef 1) appState) = Inr ()"
    by (simp add: insert_v1_def insertEntity_v1_def isNull_def
        cache_v1_defs action_defs example_defs eval_nat_numeral)
  have h2: "fst (insert_v2 (RRef 1) appState) = Inr ()"
    by (simp add: insert_v2_def insertEntity_v2_def isNull_def entitiesOf_def action_defs example_defs)
  have h3: "ctor richB = ctor (heap appState 1)" "oid richB = oid (heap appState 1)"
    by (simp_all add: richB_def example_defs)
  have h4: "cacheMap absentB (ctor (heap absentB 1)) (oid (heap absentB 1)) = Some None"
    "\<not> has (insertMap absentB (ctor (heap absentB 1))) (oid (heap absentB 1))"
    "\<not> has (upsertMap absentB (ctor (heap absentB 1))) (oid (heap absentB 1))"
    "ctor (heap absentB 1) = ''Account''" "oid (heap absentB 1) = ''b''"
    by (simp_all add: absentB_def example_defs)
  have h5: "fst (cache_v1 exampleEnv (RRef 1) absentB) = Inr (RRef 3)"
    by (simp add: absentB_def cache_v1_defs action_defs example_defs eval_nat_numeral)
  note t1 = insert_duplicate_assertion [where s = appState and a = 1 and b = 3 and e = exampleEnv
      and ob = richB]
  note t2 = insert_duplicate_assertion [where s = absentB and a = 1 and e = exampleEnv]
  have c3: "fst (insert_v1 exampleEnv (RRef 3)
      ((snd (insert_v1 exampleEnv (RRef 1) appState))
         \<lparr>heap := (heap (snd (insert_v1 exampleEnv (RRef 1) appState)))(3 := richB)\<rparr>)) =
     Inl (AssertionError [])"
    using t1 [THEN conjunct2, THEN conjunct2, THEN conjunct1] h1 h3 by blast
  have c4: "fst (insert_v2 (RRef 3)
      ((snd (insert_v2 (RRef 1) appState))
         \<lparr>heap := (heap (snd (insert_v2 (RRef 1) appState)))(3 := richB)\<rparr>)) =
     Inl (AssertionError [])"
    using t1 [THEN conjunct2, THEN conjunct2, THEN conjunct2, THEN conjunct1] h2 h3 by blast
  have c5: "fst (insert_v2 (RRef 1) absentB) = Inr () \<and>
            fst (insert_v1 exampleEnv (RRef 1) absentB) =
              (case fst (cache_v1 exampleEnv (RRef 1) absentB) of Inl err \<Rightarrow> Inl err | Inr _ \<Rightarrow> Inr ())"
    using t2 [THEN conjunct2, THEN conjunct2, THEN conjunct2, THEN conjunct2] h4(1,2,3) by blast
  show ?thesis
    using h1 h2 h3 h4 h5 c3 c4 c5 by simp
qed


section \<open>Reads and the flush\<close>























lemma load_v2_nothing:
  assumes "\<forall>n. deferIds s n = []"
  shows "load_v2 e s = (Inr (), s)"
proof -
  have "forEach (loadName_v2 e) names s = (Inr (), s)" for names
    using assms by (induction names) (simp_all add: loadName_v2_def ok_def)
  then show ?thesis by (simp add: load_v2_def)
qed










section \<open>Deferred loads\<close>

lemma flushLoop_writes:
  "flushLoop e c names s = (r, s') \<Longrightarrow> \<exists>new. calls s' = calls s @ new \<and> list_all isWrite new"
proof (induction names arbitrary: s)
  case Nil
  then show ?case by (simp add: ok_def)
next
  case (Cons name rest)
  obtain r1 s1 where step: "flushName e name s = (r1, s1)" by (cases "flushName e name s")
  from flushName_effect [OF step] obtain cs where cs: "calls s1 = calls s @ cs"
    and sub: "set cs \<subseteq> {StoreInsert name (map snd (insertMap s name)), StoreUpsert name (map snd (upsertMap s name))}"
    by blast
  have w: "list_all isWrite cs"
    using sub by (auto simp: list_all_iff isWrite_def)
  show ?case
  proof (cases "r1 = Inr () \<and> c \<noteq> Some name")
    case True
    then have "flushLoop e c rest s1 = (r, s')"
      using Cons.prems step by (simp add: andThen_def)
    from Cons.IH [OF this] cs w show ?thesis by auto
  next
    case False
    then have "s' = s1"
      using Cons.prems step by (auto simp: andThen_def ok_def split: sum.splits if_splits)
    then show ?thesis using cs w by simp
  qed
qed

lemma flush_v1_untouched:
  assumes "flush_v1 e c s = (r, s1)"
  shows "heap s1 = heap s" "cacheMap s1 = cacheMap s" "deferMap s1 = deferMap s" "deferList s1 = deferList s"
    "classes s1 = classes s" "nextAddr s1 = nextAddr s"
proof -
  have "keeps (untouchedByFlush s) (flushLoop e c names)" for names
    by (rule keeps_flushLoop) (simp_all add: untouchedByFlush_def)
  from keeps_run [OF this _ assms [unfolded flush_v1_def]]
  show "heap s1 = heap s" "cacheMap s1 = cacheMap s" "deferMap s1 = deferMap s" "deferList s1 = deferList s"
    "classes s1 = classes s" "nextAddr s1 = nextAddr s"
    by (simp_all add: untouchedByFlush_def)
qed

lemma andThen_returns:
  "andThen m f s = (Inr y, s') \<Longrightarrow> \<exists>x s1. m s = (Inr x, s1) \<and> f x s1 = (Inr y, s')"
  by (auto simp: andThen_def split: prod.splits sum.splits)

lemma markAbsent_fields:
  "sameWrites s (markAbsent T k s)" "deferMap (markAbsent T k s) = deferMap s"
  "heap (markAbsent T k s) = heap s"
  "cacheMap (markAbsent T k s) T k' = (if k' = k \<and> cacheMap s T k = None then Some None else cacheMap s T k')"
  by (auto simp: markAbsent_def setCache_def sameWrites_def)

lemma markAbsent_loop:
  "\<exists>t. forEach (\<lambda>k. modify (markAbsent T k)) ks s = (Inr (), t) \<and> sameWrites s t \<and>
       deferMap t = deferMap s \<and> heap t = heap s \<and>
       (\<forall>k. cacheMap t T k = (if k \<in> set ks \<and> cacheMap s T k = None then Some None else cacheMap s T k))"
proof (induction ks arbitrary: s)
  case Nil
  show ?case by (simp add: ok_def sameWrites_def)
next
  case (Cons k ks)
  let ?s1 = "markAbsent T k s"
  from Cons [of ?s1] obtain t where
    t: "forEach (\<lambda>k. modify (markAbsent T k)) ks ?s1 = (Inr (), t)"
      "sameWrites ?s1 t" "deferMap t = deferMap ?s1" "heap t = heap ?s1"
      "\<forall>k'. cacheMap t T k' = (if k' \<in> set ks \<and> cacheMap ?s1 T k' = None then Some None
                                else cacheMap ?s1 T k')"
    by blast
  have run: "forEach (\<lambda>k. modify (markAbsent T k)) (k # ks) s = (Inr (), t)"
    using t(1) by simp
  have sw: "sameWrites s t"
    using t(2) markAbsent_fields(1) [of s T k] by (simp add: sameWrites_def)
  have "cacheMap t T k' = (if k' \<in> set (k # ks) \<and> cacheMap s T k' = None then Some None else cacheMap s T k')"
    for k'
    using t(5) [rule_format, of k'] by (auto simp: markAbsent_fields(4) cong: if_cong)
  then show ?case
    using run sw t(3,4) by (simp add: markAbsent_fields(2,3))
qed

lemma cache_v1_keeps_entry: "keeps (\<lambda>t. cacheMap t T k \<noteq> None) (cache_v1 e v)"
  by (rule keeps_cache_v1) (auto simp: setCache_def)

lemma copy_frame: "keeps (\<lambda>t. sameWrites s0 t \<and> deferMap t = deferMap s0) (copy e a)"
proof -
  have "keeps (\<lambda>t. sameWrites s0 t \<and> deferMap t = deferMap s0) (copyRec k a)" for k
  proof (induction k arbitrary: a)
    case 0
    show ?case by simp
  next
    case (Suc k)
    show ?case
      unfolding copyRec.simps copyStep_def
      by (intro keeps_intros keeps_alloc Suc) (simp_all add: sameWrites_def)
  qed
  then show ?thesis by (simp add: copy_def)
qed

lemma find_v1_returns:
  assumes "find_v1 e T q s = (Inr res, s')"
  shows "\<exists>writes. calls s' = calls s @ writes @
            [StoreFind T (withDeferredRelations (case q of Some given \<Rightarrow> given | None \<Rightarrow> noOptions) (deferMap s T))] \<and>
          list_all isWrite writes \<and> deferMap s' = deferMap s \<and>
          (\<forall>k. cacheMap s T k \<noteq> None \<longrightarrow> cacheMap s' T k \<noteq> None)"
proof -
  from andThen_returns [OF assms [unfolded find_v1_def]]
  obtain s1 where fl: "flush_v1 e (Some T) s = (Inr (), s1)"
    and rest: "andThen (gets (\<lambda>s. deferMap s T)) (\<lambda>deferData.
       andThen (storeCall e (StoreFind T
                (withDeferredRelations (case q of Some given \<Rightarrow> given | None \<Rightarrow> noOptions) deferData))) (\<lambda>r.
       andThen (rows r) (\<lambda>res. andThen (cache_v1 e (RArr res)) (\<lambda>_. ok res)))) s1 = (Inr res, s')"
    by auto
  let ?q = "StoreFind T (withDeferredRelations (case q of Some given \<Rightarrow> given | None \<Rightarrow> noOptions) (deferMap s1 T))"
  let ?s2 = "s1\<lparr>calls := calls s1 @ [?q]\<rparr>"
  from rest have "\<exists>v. cache_v1 e (RArr res) ?s2 = (Inr v, s')"
    by (auto simp: rows_def ok_def throw_def split: if_splits response.splits elim!: andThen_cases)
  then obtain v where c: "cache_v1 e (RArr res) ?s2 = (Inr v, s')" by blast
  note f = cache_v1_frame [OF c]
  from flushLoop_writes [OF fl [unfolded flush_v1_def]] obtain writes where
    w: "calls s1 = calls s @ writes" "list_all isWrite writes" by blast
  note u = flush_v1_untouched [OF fl]
  have "cacheMap s' T k \<noteq> None" if "cacheMap s T k \<noteq> None" for k
    using keeps_run [OF cache_v1_keeps_entry _ c, of T k] that u by simp
  then show ?thesis
    using f w u by auto
qed

lemma load_v1_deferred:
  assumes "ids (deferMap s T) \<noteq> []" "load_v1 e T s = (Inr u, s')"
  shows "\<exists>writes. calls s' = calls s @ writes @ [bulkFind T (deferMap s T)] \<and> list_all isWrite writes \<and>
           deferMap s' T = emptyDeferData \<and> (\<forall>k\<in>set (ids (deferMap s T)). cacheMap s' T k \<noteq> None)"
proof -
  let ?opts = "\<lparr>whereOpt = Some (IdIn (ids (deferMap s T))), relationsOpt = Some (relations (deferMap s T))\<rparr>"
  from markAbsent_loop [of T "ids (deferMap s T)" s] obtain t where
    t: "forEach (\<lambda>k. modify (markAbsent T k)) (ids (deferMap s T)) s = (Inr (), t)"
      "sameWrites s t" "deferMap t = deferMap s"
      "\<forall>k. cacheMap t T k = (if k \<in> set (ids (deferMap s T)) \<and> cacheMap s T k = None then Some None
                               else cacheMap s T k)"
    by blast
  have "load_v1 e T s =
      andThen (find_v1 e T (Some ?opts))
        (\<lambda>_. modify (\<lambda>s. s\<lparr>deferMap := (deferMap s)(T := emptyDeferData)\<rparr>)) t"
    using assms(1) t(1)
    by (simp add: load_v1_def andThen_Inr [where m = "forEach (\<lambda>k. modify (markAbsent T k)) (ids (deferMap s T))"])
  with assms(2) obtain res s2 where f: "find_v1 e T (Some ?opts) t = (Inr res, s2)"
    and s': "s' = s2\<lparr>deferMap := (deferMap s2)(T := emptyDeferData)\<rparr>"
    by (auto simp: modify_def elim!: andThen_cases)
  from find_v1_returns [OF f] obtain writes where
    w: "calls s2 = calls t @ writes @ [StoreFind T (withDeferredRelations ?opts (deferMap t T))]"
      "list_all isWrite writes" "deferMap s2 = deferMap t"
      "\<forall>k. cacheMap t T k \<noteq> None \<longrightarrow> cacheMap s2 T k \<noteq> None"
    by auto
  have "cacheMap s' T k \<noteq> None" if "k \<in> set (ids (deferMap s T))" for k
    using that t(4) w(4) by (simp add: s')
  then show ?thesis
    using w t(2,3) by (auto simp: s' sameWrites_def bulkFind_def)
qed

lemma defer_v1_fields [simp]:
  "calls (defer_v1 T k rel s) = calls s" "insertMap (defer_v1 T k rel s) = insertMap s"
  "upsertMap (defer_v1 T k rel s) = upsertMap s" "cacheMap (defer_v1 T k rel s) = cacheMap s"
  "heap (defer_v1 T k rel s) = heap s"
  "ids (deferMap (defer_v1 T k rel s) T) = setAdd (ids (deferMap s T)) k"
  by (simp_all add: defer_v1_def Let_def)

lemma defer_fold_ids:
  assumes "distinct (map fst reqs)" "set (map fst reqs) \<inter> set (ids (deferMap s0 T)) = {}"
  shows "ids (deferMap (fold (\<lambda>(k, rel). defer_v1 T k rel) reqs s0) T) = ids (deferMap s0 T) @ map fst reqs \<and>
         calls (fold (\<lambda>(k, rel). defer_v1 T k rel) reqs s0) = calls s0"
  using assms
proof (induction reqs arbitrary: s0)
  case Nil
  show ?case by simp
next
  case (Cons req reqs)
  obtain k rel where req: "req = (k, rel)" by (cases req)
  have "set (map fst reqs) \<inter> set (ids (deferMap (defer_v1 T k rel s0) T)) = {}"
    using Cons.prems by (auto simp: req setAdd_def)
  from Cons.IH [OF _ this] Cons.prems show ?case
    by (auto simp: req setAdd_def)
qed

lemma get_v1_deferred:
  assumes "ids (deferMap s T) \<noteq> []" "k \<in> set (ids (deferMap s T))" "get_v1 e T (Id k) s = (Inr r, s')"
  shows "\<exists>writes. calls s' = calls s @ writes @ [bulkFind T (deferMap s T)] \<and> list_all isWrite writes \<and>
           deferMap s' T = emptyDeferData"
proof -
  from andThen_returns [OF assms(3) [unfolded get_v1_def idOrOptions.case]]
  obtain s1 where l: "load_v1 e T s = (Inr (), s1)"
    and rest: "andThen (gets (\<lambda>s. cacheMap s T k)) (\<lambda>entity.
            case entity of
              Some None \<Rightarrow> ok None
            | Some (Some a) \<Rightarrow> andThen (copy e a) (\<lambda>c. ok (Some c))
            | None \<Rightarrow> getFromStore_v1 e T (Id k)) s1 = (Inr r, s')"
    by auto
  from load_v1_deferred [OF assms(1) l] obtain writes where
    w: "calls s1 = calls s @ writes @ [bulkFind T (deferMap s T)]" "list_all isWrite writes"
      "deferMap s1 T = emptyDeferData" "\<forall>k\<in>set (ids (deferMap s T)). cacheMap s1 T k \<noteq> None"
    by blast
  from w(4) assms(2) obtain entry where entry: "cacheMap s1 T k = Some entry" by auto
  have "sameWrites s1 s' \<and> deferMap s' = deferMap s1"
  proof (cases entry)
    case None
    with rest entry show ?thesis by (simp add: ok_def sameWrites_def)
  next
    case (Some a)
    with rest entry have "andThen (copy e a) (\<lambda>c. ok (Some c)) s1 = (Inr r, s')" by simp
    moreover have "keeps (\<lambda>t. sameWrites s1 t \<and> deferMap t = deferMap s1) (andThen (copy e a) (\<lambda>c. ok (Some c)))"
      by (intro keeps_intros copy_frame)
    ultimately show ?thesis
      using keeps_run [where s = s1 and s' = s' and P = "\<lambda>t. sameWrites s1 t \<and> deferMap t = deferMap s1"]
      by (simp add: sameWrites_def)
  qed
  then show ?thesis
    using w by (auto simp: sameWrites_def)
qed

text \<open>
  C4. Let no id of type \<open>T\<close> be deferred, and let \<open>N\<close> distinct ids then be registered with
  defer. When the handle of any one of them is resolved and the resolution returns, the
  calls made to the store are the writes of the flush followed by exactly one query: the
  bulk find for \<open>T\<close> whose id filter lists all \<open>N\<close> ids; and no id of \<open>T\<close> is deferred
  afterwards.
\<close>

theorem deferred_ids_one_bulk_query:
  assumes "ids (deferMap s0 T) = []" and "distinct (map fst reqs)" and "k \<in> set (map fst reqs)"
    and "resolve_v1 e T k (fold (\<lambda>(k, rel). defer_v1 T k rel) reqs s0) = (Inr r, s')"
  shows "\<exists>writes opts. calls s' = calls s0 @ writes @ [StoreFind T opts] \<and> list_all isWrite writes \<and>
           whereOpt opts = Some (IdIn (map fst reqs)) \<and> ids (deferMap s' T) = []"
proof -
  let ?s = "fold (\<lambda>(k, rel). defer_v1 T k rel) reqs s0"
  have d: "ids (deferMap ?s T) = map fst reqs" "calls ?s = calls s0"
    using defer_fold_ids [of reqs s0 T] assms(1,2) by simp_all
  then have "ids (deferMap ?s T) \<noteq> []" "k \<in> set (ids (deferMap ?s T))"
    using assms(3) by auto
  from get_v1_deferred [OF this assms(4) [unfolded resolve_v1_def]] obtain writes where
    "calls s' = calls ?s @ writes @ [bulkFind T (deferMap ?s T)]" "list_all isWrite writes"
    "deferMap s' T = emptyDeferData"
    by blast
  then show ?thesis
    using d by (auto simp: bulkFind_def withDeferredRelations_def emptyDeferData_def)
qed

theorem deferred_ids_one_bulk_query_witness:
  "ids (deferMap appState ''Account'') = [] \<and> distinct (map fst [(''x'', None), (''y'', None)]) \<and>
   ''y'' \<in> set (map fst [(''x'', None :: relations option), (''y'', None)]) \<and>
   fst (resolve_v1 exampleEnv ''Account'' ''y''
     (fold (\<lambda>(k, rel). defer_v1 ''Account'' k rel) [(''x'', None), (''y'', None)] appState)) = Inr None \<and>
   (\<exists>writes opts. calls (snd (resolve_v1 exampleEnv ''Account'' ''y''
        (fold (\<lambda>(k, rel). defer_v1 ''Account'' k rel) [(''x'', None), (''y'', None)] appState))) =
        writes @ [StoreFind ''Account'' opts] \<and> list_all isWrite writes \<and>
        whereOpt opts = Some (IdIn [''x'', ''y''])) \<and>
   ids (deferMap (snd (resolve_v1 exampleEnv ''Account'' ''y''
        (fold (\<lambda>(k, rel). defer_v1 ''Account'' k rel) [(''x'', None), (''y'', None)] appState))) ''Account'') = []"
proof -
  let ?s = "fold (\<lambda>(k, rel). defer_v1 ''Account'' k rel) [(''x'', None), (''y'', None)] appState"
  have h1: "ids (deferMap appState ''Account'') = []"
    by (simp add: example_defs)
  have h2: "fst (resolve_v1 exampleEnv ''Account'' ''y'' ?s) = Inr None"
    by (simp add: resolve_v1_def get_v1_def load_v1_def find_v1_def flush_v1_def
        getTopologicalOrder_def flushName_def flushInserts_eq flushUpserts_eq
        defer_v1_def setAdd_def markAbsent_def withDeferredRelations_def mergeRelataions_def entries_def
        rows_def cache_v1_defs action_defs example_defs eval_nat_numeral Let_def
        andThen_def storeCall_def)
  have run: "resolve_v1 exampleEnv ''Account'' ''y'' ?s =
      (Inr None, snd (resolve_v1 exampleEnv ''Account'' ''y'' ?s))"
    using h2 by (simp add: prod_eq_iff)
  have calls0: "calls appState = []"
    by (simp add: example_defs)
  show ?thesis
    using deferred_ids_one_bulk_query [OF h1 _ _ run] h1 h2 calls0
    by (auto simp: list_all_iff)
qed


section \<open>Absent ids\<close>

lemma keeps_gets_dep:
  assumes "\<And>s. P s \<Longrightarrow> Q (f s)" "\<And>x. Q x \<Longrightarrow> keeps P (g x)"
  shows "keeps P (andThen (gets f) g)"
  using assms by (auto simp: keeps_def andThen_def gets_def)

lemma keeps_unknown_cacheColumn:
  assumes "\<And>v. keeps (unknownId T k) (rec v)"
  shows "keeps (unknownId T k) (cacheColumn rec entity cached col)"
  unfolding cacheColumn_def setRelation_def copyColumn_def
  by (intro keeps_intros keeps_modify assms) (simp_all add: unknownId_def)

lemma keeps_unknown_cacheEntity:
  assumes "\<And>v. keeps (unknownId T k) (rec v)"
  shows "keeps (unknownId T k) (cacheEntity rec e mapName entity)"
  unfolding cacheEntity_def
proof (rule keeps_gets_dep [where Q = "\<lambda>ent. oid ent \<noteq> k"])
  show "unknownId T k s \<Longrightarrow> oid (heap s entity) \<noteq> k" for s
    by (simp add: unknownId_def)
next
  fix ent :: obj
  assume "oid ent \<noteq> k"
  then have "keeps (unknownId T k) (alloc \<lparr>ctor = ctor ent, oid = oid ent, cols = Map.empty, rels = []\<rparr>)"
    "keeps (unknownId T k) (modify (setCache mapName (oid ent) (Some cached)))" for cached
    by (simp_all add: keeps_def alloc_def modify_def unknownId_def setCache_def)
  then show "keeps (unknownId T k)
          (andThen (gets (\<lambda>s. cacheMap s mapName (oid ent)))
            (\<lambda>found.
                andThen
                 (case found of None \<Rightarrow> alloc \<lparr>ctor = ctor ent, oid = oid ent, cols = Map.empty, rels = []\<rparr>
                  | Some None \<Rightarrow> alloc \<lparr>ctor = ctor ent, oid = oid ent, cols = Map.empty, rels = []\<rparr>
                  | Some (Some c) \<Rightarrow> ok c)
                 (\<lambda>cached.
                     case find (\<lambda>m. mdName m = ctor ent) (entityMetadatas e) of
                     None \<Rightarrow> throw (AssertionError (''Missing metadata for '' @ ctor ent))
                     | Some metadata \<Rightarrow>
                         andThen (forEach (cacheColumn rec entity cached) (columns metadata))
                          (\<lambda>_. andThen (modify (setCache mapName (oid ent) (Some cached))) (\<lambda>_. ok cached)))))"
    by (intro keeps_intros keeps_unknown_cacheColumn assms)
qed

lemma keeps_unknown_cache_v1: "keeps (unknownId T k) (cache_v1 e v)"
proof -
  have "keeps (unknownId T k) (cacheRec n e v)" for n
  proof (induction n arbitrary: v)
    case 0
    show ?case by simp
  next
    case (Suc n)
    show ?case
      unfolding cacheRec.simps cacheStep_def
      by (intro keeps_intros keeps_unknown_cacheEntity Suc)
  qed
  then show ?thesis by (simp add: cache_v1_def)
qed

lemma keeps_unknown_flushLoop: "keeps (unknownId T k) (flushLoop e c names)"
  by (rule keeps_flushLoop) (simp_all add: unknownId_def)

lemma keeps_unknown_storeCall: "keeps (unknownId T k) (storeCall e c)"
  by (rule keeps_storeCall) (simp add: unknownId_def)

lemma keeps_unknown_markAbsent: "keeps (unknownId T k) (modify (markAbsent n k'))"
  by (rule keeps_modify) (auto simp: unknownId_def markAbsent_def setCache_def isNull_def)

lemma keeps_unknown_load_v1: "keeps (unknownId T k) (load_v1 e n)"
  unfolding load_v1_def find_v1_def flush_v1_def
  by (intro keeps_intros keeps_unknown_markAbsent keeps_unknown_flushLoop keeps_unknown_storeCall
      keeps_unknown_cache_v1 keeps_modify)
    (simp add: unknownId_def)

lemma resolve_v1_unknown:
  assumes "unknownId T k s" "k \<in> set (ids (deferMap s T))" "resolve_v1 e T k s = (Inr r, s')"
  shows "r = None \<and> cacheMap s' T k = Some None \<and> unknownId T k s'"
proof -
  from andThen_returns [OF assms(3) [unfolded resolve_v1_def get_v1_def idOrOptions.case]]
  obtain s1 where l: "load_v1 e T s = (Inr (), s1)"
    and rest: "andThen (gets (\<lambda>s. cacheMap s T k)) (\<lambda>entity.
            case entity of
              Some None \<Rightarrow> ok None
            | Some (Some a) \<Rightarrow> andThen (copy e a) (\<lambda>c. ok (Some c))
            | None \<Rightarrow> getFromStore_v1 e T (Id k)) s1 = (Inr r, s')"
    by auto
  from assms(2) have "ids (deferMap s T) \<noteq> []" by auto
  from load_v1_deferred [OF this l] assms(2) have "cacheMap s1 T k \<noteq> None" by blast
  moreover have u: "unknownId T k s1"
    by (rule keeps_run [OF keeps_unknown_load_v1 assms(1) l])
  ultimately have "cacheMap s1 T k = Some None"
    by (auto simp: unknownId_def isNull_def split: option.splits)
  with rest u show ?thesis by (simp add: ok_def)
qed

lemma deferIds_setDeferIds [simp]:
  "deferIds (setDeferIds n l s) m = (if m = n then l else deferIds s m)"
  by (simp add: deferIds_def setDeferIds_def update_conv')

lemma deferIds_updates [simp]:
  "deferIds (s\<lparr>calls := c\<rparr>) = deferIds s" "deferIds (s\<lparr>insertMap := i\<rparr>) = deferIds s"
  "deferIds (s\<lparr>upsertMap := i\<rparr>) = deferIds s" "deferIds (s\<lparr>cacheMap := cm\<rparr>) = deferIds s"
  "deferIds (s\<lparr>heap := h\<rparr>) = deferIds s" "deferIds (s\<lparr>classes := cl\<rparr>) = deferIds s"
  by (simp_all add: deferIds_def fun_eq_iff)

lemma setDeferIds_fields [simp]:
  "insertMap (setDeferIds n l s) = insertMap s" "upsertMap (setDeferIds n l s) = upsertMap s"
  "cacheMap (setDeferIds n l s) = cacheMap s" "heap (setDeferIds n l s) = heap s"
  "calls (setDeferIds n l s) = calls s"
  by (simp_all add: setDeferIds_def)

lemma keeps_cache_v2_dep:
  assumes h: "\<And>s a. P s \<Longrightarrow> Q (oid (heap s a))"
    and d: "\<And>s n k'. Q k' \<Longrightarrow> P s \<Longrightarrow> P (deferDelete n k' s)"
    and c: "\<And>s n k' v. Q k' \<Longrightarrow> P s \<Longrightarrow> P (setCache n k' v s)"
  shows "keeps P (cache_v2 e v)"
proof -
  have ent: "keeps P (cacheEntity_v2 rec e mapName entity)" if rec: "\<And>v. keeps P (rec v)"
    for rec mapName entity
    unfolding cacheEntity_v2_def
  proof (rule keeps_gets_dep [where Q = "\<lambda>ent. Q (oid ent)"])
    show "P s \<Longrightarrow> Q (oid (heap s entity))" for s
      by (rule h)
  next
    fix ent :: obj
    assume q: "Q (oid ent)"
    show "keeps P
          (andThen (modify (deferDelete mapName (oid ent)))
            (\<lambda>_. andThen (modify (setCache mapName (oid ent) (Some entity)))
                  (\<lambda>_. case find (\<lambda>m. mdName m = ctor ent) (entityMetadatas e) of
                        None \<Rightarrow> throw (AssertionError [])
                        | Some metadata \<Rightarrow>
                            forEach
                             (\<lambda>relation.
                                 andThen (gets (\<lambda>s. map_of (rels (heap s entity)) relation))
                                  (\<lambda>present.
                                      case present of None \<Rightarrow> ok () | Some RNull \<Rightarrow> ok ()
                                      | Some v \<Rightarrow> andThen (rec v) (\<lambda>_. ok ())))
                             (mdRelations metadata))))"
      by (intro keeps_intros keeps_modify rec d [OF q] c [OF q])
  qed
  have "keeps P (cacheRec_v2 n e v)" for n
  proof (induction n arbitrary: v)
    case 0
    show ?case by simp
  next
    case (Suc n)
    show ?case
      unfolding cacheRec_v2.simps cacheStep_v2_def
      by (intro keeps_intros ent Suc)
  qed
  then show ?thesis by (simp add: cache_v2_def)
qed

lemma keeps_find_v2_dep:
  assumes h: "\<And>s a. P s \<Longrightarrow> Q (oid (heap s a))"
    and d: "\<And>s n k'. Q k' \<Longrightarrow> P s \<Longrightarrow> P (deferDelete n k' s)"
    and c: "\<And>s n k' v. Q k' \<Longrightarrow> P s \<Longrightarrow> P (setCache n k' v s)"
    and w: "\<And>s c. P s \<Longrightarrow> P (s\<lparr>calls := calls s @ [c]\<rparr>)"
      "\<And>s n. P s \<Longrightarrow> P (s\<lparr>insertMap := (insertMap s)(n := [])\<rparr>)"
      "\<And>s n. P s \<Longrightarrow> P (s\<lparr>upsertMap := (upsertMap s)(n := [])\<rparr>)"
  shows "keeps P (find_v2 e n q)"
  unfolding find_v2_def flush_v2_def
  by (intro keeps_intros keeps_flushLoop keeps_storeCall keeps_cache_v2_dep [where Q = Q] h d c w)

lemma keeps_awaited_find_v2: "keeps (awaited T k) (find_v2 e n q)"
  by (rule keeps_find_v2_dep [where Q = "\<lambda>k'. k' \<noteq> k"])
     (auto simp: awaited_def unknownId_def deferDelete_def setCache_def)

lemma keeps_empty_find_v2: "keeps (\<lambda>t. deferIds t m = []) (find_v2 e n q)"
  by (rule keeps_find_v2_dep [where Q = "\<lambda>k'. True"])
     (auto simp: deferDelete_def setCache_def)

lemma keeps_entry_find_v2: "keeps (\<lambda>t. cacheMap t T k \<noteq> None) (find_v2 e n q)"
  by (rule keeps_find_v2_dep [where Q = "\<lambda>k'. True"])
     (auto simp: deferDelete_def setCache_def)

lemma markAbsent_all:
  "\<exists>t. forEach (\<lambda>k. modify (markAbsent T k)) ks s = (Inr (), t) \<and> sameWrites s t \<and>
       heap t = heap s \<and> deferList t = deferList s \<and>
       (\<forall>m k. cacheMap t m k = (if m = T \<and> k \<in> set ks \<and> cacheMap s T k = None then Some None
                                else cacheMap s m k))"
proof (induction ks arbitrary: s)
  case Nil
  show ?case by (simp add: ok_def sameWrites_def)
next
  case (Cons k ks)
  let ?s1 = "markAbsent T k s"
  from Cons [of ?s1] obtain t where
    t: "forEach (\<lambda>k. modify (markAbsent T k)) ks ?s1 = (Inr (), t)"
      "sameWrites ?s1 t" "heap t = heap ?s1" "deferList t = deferList ?s1"
      "\<forall>m k'. cacheMap t m k' = (if m = T \<and> k' \<in> set ks \<and> cacheMap ?s1 T k' = None then Some None
                                else cacheMap ?s1 m k')"
    by blast
  have f: "heap ?s1 = heap s" "deferList ?s1 = deferList s" "sameWrites s ?s1"
    "cacheMap ?s1 m k' = (if m = T \<and> k' = k \<and> cacheMap s T k = None then Some None else cacheMap s m k')"
    for m k'
    by (auto simp: markAbsent_def setCache_def sameWrites_def)
  have run: "forEach (\<lambda>k. modify (markAbsent T k)) (k # ks) s = (Inr (), t)"
    using t(1) by simp
  have "cacheMap t m k' = (if m = T \<and> k' \<in> set (k # ks) \<and> cacheMap s T k' = None then Some None
                           else cacheMap s m k')" for m k'
    using t(5) [rule_format, of m k'] by (auto simp: f(4) cong: if_cong)
  then show ?case
    using run t(2,3,4) f(1,2,3) by (simp add: sameWrites_def)
qed

lemma loadName_v2_returns:
  assumes "loadName_v2 e n s = (Inr u, s')"
  shows "deferIds s' n = [] \<and> (deferIds s m = [] \<longrightarrow> deferIds s' m = []) \<and>
         (cacheMap s T k \<noteq> None \<longrightarrow> cacheMap s' T k \<noteq> None) \<and>
         (awaited T k s \<longrightarrow> awaited T k s' \<and> (n = T \<longrightarrow> cacheMap s' T k \<noteq> None))"
proof (cases "deferIds s n = []")
  case True
  with assms have "s' = s" by (simp add: loadName_v2_def ok_def)
  with True show ?thesis
    by (auto simp: awaited_def)
next
  case False
  let ?q = "Some \<lparr>whereOpt = Some (IdIn (deferIds s n)), relationsOpt = None\<rparr>"
  from assms False have
    "andThen (find_v2 e n ?q) (\<lambda>_.
       andThen (gets (\<lambda>s. deferIds s n)) (\<lambda>remaining.
       andThen (forEach (\<lambda>k. modify (markAbsent n k)) remaining) (\<lambda>_.
       modify (setDeferIds n [])))) s = (Inr u, s')"
    by (simp add: loadName_v2_def split: if_splits)
  from andThen_returns [OF this] obtain v s1 where
    f: "find_v2 e n ?q s = (Inr v, s1)"
    and rest: "andThen (forEach (\<lambda>k. modify (markAbsent n k)) (deferIds s1 n)) (\<lambda>_.
       modify (setDeferIds n [])) s1 = (Inr u, s')"
    by auto
  from markAbsent_all [of n "deferIds s1 n" s1] obtain t where
    t: "forEach (\<lambda>k. modify (markAbsent n k)) (deferIds s1 n) s1 = (Inr (), t)"
      "heap t = heap s1" "deferList t = deferList s1"
      "\<forall>m k. cacheMap t m k = (if m = n \<and> k \<in> set (deferIds s1 n) \<and> cacheMap s1 n k = None
                                then Some None else cacheMap s1 m k)"
    by blast
  from rest have s': "s' = setDeferIds n [] t"
    by (simp add: andThen_Inr [where m = "forEach (\<lambda>k. modify (markAbsent n k)) (deferIds s1 n)", OF t(1)]
        modify_def)
  have dl: "deferIds t m' = deferIds s1 m'" for m'
    by (simp add: deferIds_def t(3))
  have 1: "deferIds s' n = []"
    by (simp add: s')
  have 2: "deferIds s' m = []" if "deferIds s m = []"
    using keeps_run [OF keeps_empty_find_v2 that f] by (simp add: s' dl)
  have 3: "cacheMap s' T k \<noteq> None" if "cacheMap s T k \<noteq> None"
    using keeps_run [where P = "\<lambda>t. cacheMap t T k \<noteq> None", OF keeps_entry_find_v2 that f]
    by (simp add: s' t(4))
  have 4: "awaited T k s' \<and> (n = T \<longrightarrow> cacheMap s' T k \<noteq> None)" if "awaited T k s"
    using keeps_run [OF keeps_awaited_find_v2 that f]
    by (auto simp: s' t(2,4) dl awaited_def unknownId_def isNull_def)
  show ?thesis
    using 1 2 3 4 by blast
qed

lemma forEach_loadName_v2:
  assumes "forEach (loadName_v2 e) names s = (Inr u, s')"
  shows "(\<forall>m. m \<in> set names \<or> deferIds s m = [] \<longrightarrow> deferIds s' m = []) \<and>
         (cacheMap s T k \<noteq> None \<longrightarrow> cacheMap s' T k \<noteq> None) \<and>
         (awaited T k s \<longrightarrow> awaited T k s' \<and> (T \<in> set names \<longrightarrow> cacheMap s' T k \<noteq> None))"
  using assms
proof (induction names arbitrary: s)
  case Nil
  then show ?case by (simp add: ok_def)
next
  case (Cons n names)
  from Cons.prems have "andThen (loadName_v2 e n) (\<lambda>_. forEach (loadName_v2 e) names) s = (Inr u, s')"
    by simp
  from andThen_returns [OF this] obtain x t where
    step: "loadName_v2 e n s = (Inr x, t)" and rest: "forEach (loadName_v2 e) names t = (Inr u, s')"
    by blast
  note ih = Cons.IH [OF rest]
  note st = loadName_v2_returns [OF step, where T = T and k = k]
  have 1: "deferIds s' m = []" if "m \<in> set (n # names) \<or> deferIds s m = []" for m
  proof -
    have "m \<in> set names \<or> deferIds t m = []"
      using that loadName_v2_returns [OF step, where T = T and k = k and m = m] by auto
    with ih show ?thesis by blast
  qed
  have 2: "cacheMap s' T k \<noteq> None" if "cacheMap s T k \<noteq> None"
    using that st ih by blast
  have 3: "awaited T k s' \<and> (T \<in> set (n # names) \<longrightarrow> cacheMap s' T k \<noteq> None)" if "awaited T k s"
    using that st ih by auto
  show ?case
    using 1 2 3 by blast
qed

lemma load_v2_returns:
  assumes "load_v2 e s = (Inr u, s')"
  shows "(\<forall>m. deferIds s' m = []) \<and> (awaited T k s \<longrightarrow> unknownId T k s' \<and> cacheMap s' T k = Some None)"
proof -
  let ?names = "map fst (deferList s)"
  from assms have run: "forEach (loadName_v2 e) ?names s = (Inr u, s')"
    by (simp add: load_v2_def)
  note f = forEach_loadName_v2 [OF run, where T = T and k = k]
  have names: "m \<in> set ?names \<or> deferIds s m = []" for m
  proof (cases "map_of (deferList s) m")
    case None
    then show ?thesis by (simp add: deferIds_def)
  next
    case (Some l)
    from map_of_SomeD [OF this] show ?thesis by force
  qed
  have 1: "deferIds s' m = []" for m
    using f names [of m] by blast
  have 2: "unknownId T k s' \<and> cacheMap s' T k = Some None" if a: "awaited T k s"
  proof -
    have "T \<in> set ?names \<or> cacheMap s T k \<noteq> None"
      using a names [of T] by (auto simp: awaited_def)
    with f a have "awaited T k s'" "cacheMap s' T k \<noteq> None"
      by blast+
    then show ?thesis
      by (auto simp: awaited_def unknownId_def isNull_def split: option.splits)
  qed
  show ?thesis using 1 2 by blast
qed

lemma resolve_v2_unknown:
  assumes "unknownId T k s" "k \<in> set (deferIds s T)" "resolve_v2 e T k s = (Inr r, s')"
  shows "r = None \<and> cacheMap s' T k = Some None \<and> unknownId T k s' \<and> (\<forall>m. deferIds s' m = [])"
proof -
  from andThen_returns [OF assms(3) [unfolded resolve_v2_def get_v2_def idOrOptions.case]]
  obtain s1 where l: "load_v2 e s = (Inr (), s1)"
    and rest: "andThen (gets (\<lambda>s. cacheMap s T k)) (\<lambda>entity.
            case entity of
              Some None \<Rightarrow> ok None
            | Some (Some a) \<Rightarrow> andThen (copy e a) (\<lambda>c. ok (Some c))
            | None \<Rightarrow> getFromStore_v2 e T (Id k)) s1 = (Inr r, s')"
    by auto
  have "awaited T k s"
    using assms(1,2) by (simp add: awaited_def)
  with load_v2_returns [OF l, of T k] have "\<forall>m. deferIds s1 m = []" "unknownId T k s1"
    "cacheMap s1 T k = Some None"
    by blast+
  with rest show ?thesis by (simp add: ok_def)
qed

lemma defer_v2_cached:
  assumes "cacheMap s T k \<noteq> None" "\<forall>m. deferIds s m = []"
  shows "resolve_v2 e T k (defer_v2 T k s) =
           (case cacheMap s T k of Some (Some a) \<Rightarrow> andThen (copy e a) (\<lambda>c. ok (Some c)) | _ \<Rightarrow> ok None)
             (defer_v2 T k s)"
    and "calls (defer_v2 T k s) = calls s" and "\<forall>m. deferIds (defer_v2 T k s) m = []"
proof -
  show d: "\<forall>m. deferIds (defer_v2 T k s) m = []"
    using assms by (auto simp: defer_v2_def Let_def)
  show "calls (defer_v2 T k s) = calls s"
    by (simp add: defer_v2_def Let_def)
  have "cacheMap (defer_v2 T k s) = cacheMap s"
    by (simp add: defer_v2_def Let_def)
  then show "resolve_v2 e T k (defer_v2 T k s) =
           (case cacheMap s T k of Some (Some a) \<Rightarrow> andThen (copy e a) (\<lambda>c. ok (Some c)) | _ \<Rightarrow> ok None)
             (defer_v2 T k s)"
    using assms(1)
    by (auto simp: resolve_v2_def get_v2_def andThen_Inr [where m = "load_v2 e", OF load_v2_nothing [OF d]]
        split: option.splits)
qed

lemma deferredX_fields:
  "unknownId ''Account'' ''x'' deferredX" "ids (deferMap deferredX ''Account'') = [''x'']"
  "unknownId ''Account'' ''x'' deferredX_v2" "deferIds deferredX_v2 ''Account'' = [''x'']"
  by (simp_all add: deferredX_def deferredX_v2_def defer_v1_def defer_v2_def unknownId_def isNull_def
      setAdd_def deferIds_def setDeferIds_def example_defs Let_def)

lemma absentX_run:
  "resolve_v1 exampleEnv ''Account'' ''x'' deferredX = (Inr None, absentX)"
  "calls absentX = [StoreFind ''Account'' \<lparr>whereOpt = Some (IdIn [''x'']), relationsOpt = Some (Nested [])\<rparr>]"
proof -
  have "fst (resolve_v1 exampleEnv ''Account'' ''x'' deferredX) = Inr None \<and>
      calls (snd (resolve_v1 exampleEnv ''Account'' ''x'' deferredX)) =
        [StoreFind ''Account'' \<lparr>whereOpt = Some (IdIn [''x'']), relationsOpt = Some (Nested [])\<rparr>]"
    by (simp add: deferredX_def resolve_v1_def get_v1_def load_v1_def find_v1_def flush_v1_def
        getTopologicalOrder_def flushName_def flushInserts_eq flushUpserts_eq
        defer_v1_def setAdd_def markAbsent_def withDeferredRelations_def mergeRelataions_def entries_def
        rows_def cache_v1_defs action_defs example_defs eval_nat_numeral Let_def
        andThen_def storeCall_def)
  then show "resolve_v1 exampleEnv ''Account'' ''x'' deferredX = (Inr None, absentX)"
    "calls absentX = [StoreFind ''Account'' \<lparr>whereOpt = Some (IdIn [''x'']), relationsOpt = Some (Nested [])\<rparr>]"
    by (simp_all add: absentX_def prod_eq_iff)
qed

lemma absentX_v2_run:
  "resolve_v2 exampleEnv ''Account'' ''x'' deferredX_v2 = (Inr None, absentX_v2)"
  "calls absentX_v2 = [StoreFind ''Account'' \<lparr>whereOpt = Some (IdIn [''x'']), relationsOpt = None\<rparr>]"
proof -
  have "fst (resolve_v2 exampleEnv ''Account'' ''x'' deferredX_v2) = Inr None \<and>
      calls (snd (resolve_v2 exampleEnv ''Account'' ''x'' deferredX_v2)) =
        [StoreFind ''Account'' \<lparr>whereOpt = Some (IdIn [''x'']), relationsOpt = None\<rparr>]"
    by (simp add: deferredX_v2_def resolve_v2_def get_v2_def load_v2_def loadName_v2_def find_v2_def
        flush_v2_def getTopologicalOrder_def flushName_def flushInserts_eq flushUpserts_eq
        defer_v2_def setAdd_def markAbsent_def setCache_def deferIds_def setDeferIds_def
        rows_def cache_v2_def cacheStep_v2_def entitiesOf_def action_defs example_defs eval_nat_numeral Let_def
        andThen_def storeCall_def assert_def)
  then show "resolve_v2 exampleEnv ''Account'' ''x'' deferredX_v2 = (Inr None, absentX_v2)"
    "calls absentX_v2 = [StoreFind ''Account'' \<lparr>whereOpt = Some (IdIn [''x'']), relationsOpt = None\<rparr>]"
    by (simp_all add: absentX_v2_def prod_eq_iff)
qed

lemma absentX_fields:
  "cacheMap absentX ''Account'' ''x'' = Some None" "deferMap absentX ''Account'' = emptyDeferData"
  "insertMap absentX = (\<lambda>_. [])" "upsertMap absentX = (\<lambda>_. [])"
  by (simp_all add: absentX_def deferredX_def resolve_v1_def get_v1_def load_v1_def find_v1_def flush_v1_def
      getTopologicalOrder_def flushName_def flushInserts_eq flushUpserts_eq
      defer_v1_def setAdd_def markAbsent_def withDeferredRelations_def mergeRelataions_def entries_def
      rows_def cache_v1_defs action_defs example_defs eval_nat_numeral Let_def
      andThen_def storeCall_def fun_eq_iff)

lemma absentX_again:
  "fst (resolve_v1 exampleEnv ''Account'' ''x'' (defer_v1 ''Account'' ''x'' None absentX)) = Inr None"
  "calls (snd (resolve_v1 exampleEnv ''Account'' ''x'' (defer_v1 ''Account'' ''x'' None absentX))) =
     calls absentX @ [StoreFind ''Account'' \<lparr>whereOpt = Some (IdIn [''x'']), relationsOpt = Some (Nested [])\<rparr>]"
  using absentX_fields
  by (simp_all add: resolve_v1_def get_v1_def load_v1_def find_v1_def flush_v1_def
      getTopologicalOrder_def flushName_def flushInserts_eq flushUpserts_eq
      defer_v1_def setAdd_def markAbsent_def withDeferredRelations_def mergeRelataions_def entries_def
      rows_def cache_v1_defs action_defs exampleEnv_def mdAccount_def mdTransfer_def emptyDeferData_def
      eval_nat_numeral Let_def andThen_def storeCall_def)

lemma defer_v1_unknown: "unknownId T k s \<Longrightarrow> unknownId T k (defer_v1 T' k' rel s)"
  by (simp add: unknownId_def)

text \<open>
  C5 (amended). Let no object carry the id \<open>k\<close> and no entity be cached under \<open>(T, k)\<close>. In
  both variants, when \<open>k\<close> is deferred and its handle is resolved, a resolution that returns
  gives not-found and leaves the absent marker in the cache under \<open>(T, k)\<close>. In the second
  variant a second defer of \<open>k\<close> then registers nothing, and resolving its handle returns
  not-found without any call to the store. In the first variant defer registers \<open>k\<close> again,
  whatever the cache holds: a second resolution that returns gives not-found after the writes
  of a flush and one more bulk find for \<open>T\<close>, whose id filter is \<open>k\<close>.
\<close>

theorem absent_id_cached:
  assumes "unknownId T k s"
  shows "(k \<in> set (ids (deferMap s T)) \<and> resolve_v1 e T k s = (Inr r, s1) \<longrightarrow>
            r = None \<and> cacheMap s1 T k = Some None \<and>
            (\<forall>r2 s2. resolve_v1 e T k (defer_v1 T k rel s1) = (Inr r2, s2) \<longrightarrow>
               r2 = None \<and>
               (\<exists>writes opts. calls s2 = calls s1 @ writes @ [StoreFind T opts] \<and> list_all isWrite writes \<and>
                  whereOpt opts = Some (IdIn [k])))) \<and>
         (k \<in> set (deferIds s T) \<and> resolve_v2 e T k s = (Inr r', s1') \<longrightarrow>
            r' = None \<and> cacheMap s1' T k = Some None \<and> deferIds (defer_v2 T k s1') T = [] \<and>
            resolve_v2 e T k (defer_v2 T k s1') = (Inr None, defer_v2 T k s1') \<and>
            calls (defer_v2 T k s1') = calls s1')"
proof -
  have v1: "r = None \<and> cacheMap s1 T k = Some None \<and>
      (\<forall>r2 s2. resolve_v1 e T k (defer_v1 T k rel s1) = (Inr r2, s2) \<longrightarrow>
         r2 = None \<and>
         (\<exists>writes opts. calls s2 = calls s1 @ writes @ [StoreFind T opts] \<and> list_all isWrite writes \<and>
            whereOpt opts = Some (IdIn [k])))"
    if d: "k \<in> set (ids (deferMap s T))" and run: "resolve_v1 e T k s = (Inr r, s1)"
  proof -
    note first = resolve_v1_unknown [OF assms d run]
    from d have "ids (deferMap s T) \<noteq> []" by auto
    from get_v1_deferred [OF this d run [unfolded resolve_v1_def]]
    have empty: "deferMap s1 T = emptyDeferData" by blast
    let ?s = "defer_v1 T k rel s1"
    have ids: "ids (deferMap ?s T) = [k]"
      by (simp add: empty emptyDeferData_def setAdd_def)
    have second: "r2 = None \<and>
         (\<exists>writes opts. calls s2 = calls s1 @ writes @ [StoreFind T opts] \<and> list_all isWrite writes \<and>
            whereOpt opts = Some (IdIn [k]))"
      if run2: "resolve_v1 e T k ?s = (Inr r2, s2)" for r2 s2
    proof -
      have u: "unknownId T k ?s"
        using first by (simp add: defer_v1_unknown)
      have "r2 = None"
        using resolve_v1_unknown [OF u _ run2] ids by simp
      moreover from get_v1_deferred [OF _ _ run2 [unfolded resolve_v1_def]] ids obtain writes where
        "calls s2 = calls ?s @ writes @ [bulkFind T (deferMap ?s T)]" "list_all isWrite writes"
        by auto
      ultimately show ?thesis
        using ids by (auto simp: bulkFind_def withDeferredRelations_def)
    qed
    show ?thesis
      using first second by blast
  qed
  have v2: "r' = None \<and> cacheMap s1' T k = Some None \<and> deferIds (defer_v2 T k s1') T = [] \<and>
      resolve_v2 e T k (defer_v2 T k s1') = (Inr None, defer_v2 T k s1') \<and>
      calls (defer_v2 T k s1') = calls s1'"
    if d: "k \<in> set (deferIds s T)" and run: "resolve_v2 e T k s = (Inr r', s1')"
  proof -
    note first = resolve_v2_unknown [OF assms d run]
    then have c: "cacheMap s1' T k \<noteq> None" and n: "\<forall>m. deferIds s1' m = []"
      by simp_all
    from defer_v2_cached(1) [OF c n, of e] defer_v2_cached(2,3) [OF c n] first show ?thesis
      by (simp add: ok_def)
  qed
  show ?thesis
    using v1 v2 by blast
qed

theorem absent_id_cached_witness:
  "unknownId ''Account'' ''x'' deferredX \<and> ''x'' \<in> set (ids (deferMap deferredX ''Account'')) \<and>
   resolve_v1 exampleEnv ''Account'' ''x'' deferredX = (Inr None, absentX) \<and>
   cacheMap absentX ''Account'' ''x'' = Some None \<and>
   fst (resolve_v1 exampleEnv ''Account'' ''x'' (defer_v1 ''Account'' ''x'' None absentX)) = Inr None \<and>
   (\<exists>writes opts. calls (snd (resolve_v1 exampleEnv ''Account'' ''x'' (defer_v1 ''Account'' ''x'' None absentX))) =
       calls absentX @ writes @ [StoreFind ''Account'' opts] \<and> list_all isWrite writes \<and>
       whereOpt opts = Some (IdIn [''x''])) \<and>
   unknownId ''Account'' ''x'' deferredX_v2 \<and> ''x'' \<in> set (deferIds deferredX_v2 ''Account'') \<and>
   resolve_v2 exampleEnv ''Account'' ''x'' deferredX_v2 = (Inr None, absentX_v2) \<and>
   cacheMap absentX_v2 ''Account'' ''x'' = Some None \<and>
   resolve_v2 exampleEnv ''Account'' ''x'' (defer_v2 ''Account'' ''x'' absentX_v2) =
     (Inr None, defer_v2 ''Account'' ''x'' absentX_v2) \<and>
   calls (defer_v2 ''Account'' ''x'' absentX_v2) = calls absentX_v2"
proof -
  let ?s2 = "defer_v1 ''Account'' ''x'' None absentX"
  note t1 = absent_id_cached [OF deferredX_fields(1), where e = exampleEnv and r = None and ?s1.0 = absentX
      and rel = None and r' = None and s1' = absentX_v2]
  note t2 = absent_id_cached [OF deferredX_fields(3), where e = exampleEnv and r = None and ?s1.0 = absentX
      and rel = None and r' = None and s1' = absentX_v2]
  have a: "cacheMap absentX ''Account'' ''x'' = Some None"
    and b: "\<forall>r2 s2. resolve_v1 exampleEnv ''Account'' ''x'' ?s2 = (Inr r2, s2) \<longrightarrow>
               r2 = None \<and>
               (\<exists>writes opts. calls s2 = calls absentX @ writes @ [StoreFind ''Account'' opts] \<and>
                  list_all isWrite writes \<and> whereOpt opts = Some (IdIn [''x'']))"
    using t1 absentX_run(1) deferredX_fields(2) by simp_all
  have c: "cacheMap absentX_v2 ''Account'' ''x'' = Some None \<and>
      resolve_v2 exampleEnv ''Account'' ''x'' (defer_v2 ''Account'' ''x'' absentX_v2) =
        (Inr None, defer_v2 ''Account'' ''x'' absentX_v2) \<and>
      calls (defer_v2 ''Account'' ''x'' absentX_v2) = calls absentX_v2"
    using t2 absentX_v2_run(1) deferredX_fields(4) by simp
  note e = absentX_again(1)
  from e have "resolve_v1 exampleEnv ''Account'' ''x'' ?s2 =
      (Inr None, snd (resolve_v1 exampleEnv ''Account'' ''x'' ?s2))"
    by (simp add: prod_eq_iff)
  with b have f: "\<exists>writes opts. calls (snd (resolve_v1 exampleEnv ''Account'' ''x'' ?s2)) =
       calls absentX @ writes @ [StoreFind ''Account'' opts] \<and> list_all isWrite writes \<and>
       whereOpt opts = Some (IdIn [''x''])"
    by blast
  show ?thesis
    using a c e f deferredX_fields absentX_run(1) absentX_v2_run(1) by simp
qed

text \<open>
  In the first variant the second defer of the absent id registers it again, and resolving
  the handle asks the store for it once more.
\<close>

theorem absent_id_cached_counterexample:
  "resolve_v1 exampleEnv ''Account'' ''x'' (defer_v1 ''Account'' ''x'' None appState) = (Inr None, absentX) \<and>
   cacheMap absentX ''Account'' ''x'' = Some None \<and>
   fst (resolve_v1 exampleEnv ''Account'' ''x'' (defer_v1 ''Account'' ''x'' None absentX)) = Inr None \<and>
   calls (snd (resolve_v1 exampleEnv ''Account'' ''x'' (defer_v1 ''Account'' ''x'' None absentX))) =
     calls absentX @ [StoreFind ''Account'' \<lparr>whereOpt = Some (IdIn [''x'']), relationsOpt = Some (Nested [])\<rparr>]"
  using absentX_run(1) absentX_fields(1) absentX_again by (simp add: deferredX_def)


section \<open>Repeated upserts\<close>




















end
